theory Spec2Isabelle
  imports Complex_Main "HOL-Library.Product_Lexorder"
begin

section \<open>Numeric values and arrays\<close>

text \<open>
  The entries of a cost or similarity matrix are NumPy doubles. The solvers only compare
  them, test them for \<open>inf\<close>/\<open>NaN\<close> and add them, so a double is modelled by its value
  class: a finite number (a real), one of the two infinities, or NaN. Rounding of sums is
  not modelled.
\<close>

datatype npfloat = NegInf | Fin real | PosInf | NaN

text \<open>\<open>np.isinf\<close> and \<open>np.isnan\<close>, elementwise.\<close>

fun isinf :: "npfloat \<Rightarrow> bool" where
  "isinf NegInf = True"
| "isinf PosInf = True"
| "isinf (Fin r) = False"
| "isinf NaN = False"

fun isnan :: "npfloat \<Rightarrow> bool" where
  "isnan NaN = True"
| "isnan NegInf = False"
| "isnan PosInf = False"
| "isnan (Fin r) = False"

text \<open>
  The position of a double in NumPy's sort order: \<open>-inf\<close>, then the finite numbers by
  value, then \<open>inf\<close>, then NaN (NumPy sorts NaN to the end).
\<close>

fun sort_rank :: "npfloat \<Rightarrow> nat \<times> real" where
  "sort_rank NegInf = (0, 0)"
| "sort_rank (Fin r) = (1, r)"
| "sort_rank PosInf = (2, 0)"
| "sort_rank NaN = (3, 0)"

text \<open>
  A two-dimensional \<open>np.ndarray\<close>: its shape and its buffer in row-major order. The
  array is well formed when the buffer has one entry per cell.
\<close>

record ndarray =
  nrows :: nat
  ncols :: nat
  data :: "npfloat list"

definition valid_array :: "ndarray \<Rightarrow> bool" where
  "valid_array a \<longleftrightarrow> length (data a) = nrows a * ncols a"

text \<open>Reading the cell \<open>a[i, j]\<close>.\<close>

definition cell :: "ndarray \<Rightarrow> nat \<times> nat \<Rightarrow> npfloat" where
  "cell a e = data a ! (fst e * ncols a + snd e)"

text \<open>
  \<open>np.argsort(a, axis=None)\<close> is NumPy's and is not in the sources. The greedy solver
  below takes it as a parameter \<open>argsort\<close>, from the flattened array to the list of its
  positions. What NumPy promises of the result is \<open>is_argsort\<close>: the positions, each
  once, in ascending order of their values. The order of positions with equal values is
  not promised: the code calls \<open>np.argsort\<close> with its default kind, which is not stable.
\<close>

definition is_argsort :: "npfloat list \<Rightarrow> nat list \<Rightarrow> bool" where
  "is_argsort xs ks \<longleftrightarrow>
     sort ks = [0..<length xs] \<and> sorted (map (\<lambda>k. sort_rank (xs ! k)) ks)"

text \<open>
  The stable sort that the specification presupposes ("deterministic given a stable
  sort"): it keeps positions with equal values in their original order. It follows
  the specification's words, not the code.
\<close>

definition stable_argsort :: "npfloat list \<Rightarrow> nat list" where
  "stable_argsort xs = sort_key (\<lambda>k. sort_rank (xs ! k)) [0..<length xs]"

text \<open>\<open>np.unravel_index(k, shape)\<close> for a two-dimensional shape.\<close>

definition unravel_index :: "nat \<Rightarrow> nat \<Rightarrow> nat \<times> nat" where
  "unravel_index m k = (k div m, k mod m)"

section \<open>The default sort of NumPy\<close>

text \<open>
  The default kind of \<open>np.argsort\<close> is \<open>quicksort\<close>, which for doubles is NumPy's
  introsort \<open>aquicksort_double\<close> (\<open>numpy/core/src/npysort/quicksort.c.src\<close>): quicksort
  with a median of three, insertion sort for ranges of at most 17 entries, heapsort
  beyond a depth limit. It is library code, not code of this repository; it is
  written out here so that the solver can be run on the order the library returns.
  Builds of NumPy that replace this routine by a vectorised sort return other orders
  for equal values; the general theorems below hold for every \<open>argsort\<close> that
  satisfies \<open>is_argsort\<close>.
\<close>

text \<open>\<open>DOUBLE_LT\<close>, the comparison of the sort: \<open>a < b\<close>, with NaN after everything else.\<close>

definition float_lt :: "npfloat \<Rightarrow> npfloat \<Rightarrow> bool" where
  "float_lt a b \<longleftrightarrow> sort_rank a < sort_rank b"

text \<open>\<open>INTP_SWAP\<close> of two entries of the index array.\<close>

definition intp_swap :: "nat \<Rightarrow> nat \<Rightarrow> nat list \<Rightarrow> nat list" where
  "intp_swap i j tosort = tosort[i := tosort ! j, j := tosort ! i]"

text \<open>
  The two scans of the partition, \<open>do ++pi; while (LT(v[*pi], vp))\<close> and
  \<open>do --pj; while (LT(vp, v[*pj]))\<close>, each from the position it first tests. The C code
  has no bound on them: the median of three leaves the pivot at \<open>pr - 1\<close> and an entry
  not above it at \<open>pl\<close>, so the scans stop there at the latest. The bounds \<open>hi\<close> and \<open>lo\<close>
  are those positions.
\<close>

function scan_up :: "npfloat list \<Rightarrow> nat list \<Rightarrow> npfloat \<Rightarrow> nat \<Rightarrow> nat \<Rightarrow> nat" where
  "scan_up v tosort vp hi i =
     (if i < hi \<and> float_lt (v ! (tosort ! i)) vp then scan_up v tosort vp hi (Suc i) else i)"
  by pat_completeness auto
termination
  by (relation "measure (\<lambda>(v, tosort, vp, hi, i). hi - i)") auto

declare scan_up.simps [simp del]

function scan_down :: "npfloat list \<Rightarrow> nat list \<Rightarrow> npfloat \<Rightarrow> nat \<Rightarrow> nat \<Rightarrow> nat" where
  "scan_down v tosort vp lo j =
     (if lo < j \<and> float_lt vp (v ! (tosort ! j)) then scan_down v tosort vp lo (j - 1) else j)"
  by pat_completeness auto
termination
  by (relation "measure (\<lambda>(v, tosort, vp, lo, j). j)") auto

declare scan_down.simps [simp del]

lemma scan_up_bounds: "i \<le> scan_up v tosort vp hi i \<and> scan_up v tosort vp hi i \<le> max i hi"
proof (induction v tosort vp hi i rule: scan_up.induct)
  case (1 v tosort vp hi i)
  show ?case
  proof (cases "i < hi \<and> float_lt (v ! (tosort ! i)) vp")
    case True
    then show ?thesis using 1 by (subst (1 2) scan_up.simps) auto
  next
    case False
    then show ?thesis by (subst (1 2) scan_up.simps) auto
  qed
qed

lemma scan_down_le: "scan_down v tosort vp lo j \<le> j"
proof (induction v tosort vp lo j rule: scan_down.induct)
  case (1 v tosort vp lo j)
  show ?case
  proof (cases "lo < j \<and> float_lt vp (v ! (tosort ! j))")
    case True
    then show ?thesis using 1 by (subst scan_down.simps) auto
  next
    case False
    then show ?thesis by (subst scan_down.simps) auto
  qed
qed

text \<open>
  The partition loop \<open>for (;;)\<close>: scan, stop when the scans meet (\<open>pi >= pj\<close>), else swap
  and go on. It returns the index array and the meeting position \<open>pi\<close>.
\<close>

function partition_loop ::
  "npfloat list \<Rightarrow> nat list \<Rightarrow> npfloat \<Rightarrow> nat \<Rightarrow> nat \<Rightarrow> nat \<Rightarrow> nat \<Rightarrow> nat list \<times> nat" where
  "partition_loop v tosort vp lo hi i j =
     (let i' = scan_up v tosort vp hi (Suc i);
          j' = scan_down v tosort vp lo (j - 1)
      in if j' \<le> i' then (tosort, i')
         else partition_loop v (intp_swap i' j' tosort) vp lo hi i' j')"
  by pat_completeness auto
termination
proof (relation "measure (\<lambda>(v, tosort, vp, lo, hi, i, j). j)")
  show "wf (measure (\<lambda>(v, tosort, vp, lo, hi, i, j). j))" by simp
next
  fix v :: "npfloat list" and tosort :: "nat list" and vp lo hi i j x xa
  assume x: "x = scan_up v tosort vp hi (Suc i)" and xa: "xa = scan_down v tosort vp lo (j - 1)"
    and n: "\<not> xa \<le> x"
  have "xa \<le> j - 1" using xa scan_down_le by simp
  moreover have "0 < xa" using n by simp
  ultimately have "xa < j" by simp
  then show "((v, intp_swap x xa tosort, vp, lo, hi, x, xa), v, tosort, vp, lo, hi, i, j)
      \<in> measure (\<lambda>(v, tosort, vp, lo, hi, i, j). j)" by simp
qed

declare partition_loop.simps [simp del]

lemma partition_loop_bounds:
  "lo \<le> i \<Longrightarrow> i < j \<Longrightarrow> j \<le> hi \<Longrightarrow>
   lo < snd (partition_loop v tosort vp lo hi i j) \<and> snd (partition_loop v tosort vp lo hi i j) \<le> hi"
proof (induction v tosort vp lo hi i j rule: partition_loop.induct)
  case (1 v tosort vp lo hi i j)
  let ?i = "scan_up v tosort vp hi (Suc i)"
  let ?j = "scan_down v tosort vp lo (j - 1)"
  have iu: "Suc i \<le> ?i" "?i \<le> max (Suc i) hi" using scan_up_bounds by blast+
  have jd: "?j \<le> j - 1" by (rule scan_down_le)
  show ?case
  proof (cases "?j \<le> ?i")
    case True
    then have "snd (partition_loop v tosort vp lo hi i j) = ?i"
      by (subst partition_loop.simps) (simp add: Let_def)
    then show ?thesis using iu 1(2,3,4) by auto
  next
    case False
    then have eq: "partition_loop v tosort vp lo hi i j =
        partition_loop v (intp_swap ?i ?j tosort) vp lo hi ?i ?j"
      by (subst partition_loop.simps) (simp add: Let_def)
    have "lo \<le> ?i" "?i < ?j" "?j \<le> hi" using False iu jd 1(2,3,4) by auto
    from 1(1) [OF refl refl False this] show ?thesis using eq by simp
  qed
qed

text \<open>
  One partition of \<open>tosort[pl..pr]\<close>: median of three on \<open>pl\<close>, \<open>pm\<close>, \<open>pr\<close>, the pivot
  moved to \<open>pr - 1\<close>, the partition loop, and the pivot moved to where the scans met.
\<close>

definition quicksort_partition :: "npfloat list \<Rightarrow> nat list \<Rightarrow> nat \<Rightarrow> nat \<Rightarrow> nat list \<times> nat" where
  "quicksort_partition v tosort pl pr =
     (let pm = pl + (pr - pl) div 2;
          t1 = (if float_lt (v ! (tosort ! pm)) (v ! (tosort ! pl)) then intp_swap pm pl tosort
                else tosort);
          t2 = (if float_lt (v ! (t1 ! pr)) (v ! (t1 ! pm)) then intp_swap pr pm t1 else t1);
          t3 = (if float_lt (v ! (t2 ! pm)) (v ! (t2 ! pl)) then intp_swap pm pl t2 else t2);
          vp = v ! (t3 ! pm);
          t4 = intp_swap pm (pr - 1) t3
      in (case partition_loop v t4 vp pl (pr - 1) pl (pr - 1) of
            (t5, i) \<Rightarrow> (intp_swap i (pr - 1) t5, i)))"

lemma quicksort_partition_bounds:
  assumes "16 < pr - pl"
  shows "pl < snd (quicksort_partition v tosort pl pr) \<and> snd (quicksort_partition v tosort pl pr) < pr"
proof -
  have a: "pl \<le> pl" "pl < pr - 1" "pr - 1 \<le> pr - 1" using assms by auto
  have b: "pl < snd (partition_loop v t vp pl (pr - 1) pl (pr - 1)) \<and>
        snd (partition_loop v t vp pl (pr - 1) pl (pr - 1)) \<le> pr - 1" for t vp
    using partition_loop_bounds [OF a] by blast
  have b1: "pl < snd (partition_loop v t vp pl (pr - 1) pl (pr - 1))" for t vp
    using b by blast
  have b2: "snd (partition_loop v t vp pl (pr - 1) pl (pr - 1)) < pr" for t vp
  proof -
    have "snd (partition_loop v t vp pl (pr - 1) pl (pr - 1)) \<le> pr - 1" using b by blast
    then show ?thesis using assms by linarith
  qed
  show ?thesis
    unfolding quicksort_partition_def Let_def split_beta snd_conv
    by (rule conjI [OF b1 b2])
qed

lemma quicksort_partition_pair:
  assumes "(x, y) = quicksort_partition v tosort pl pr" and "16 < pr - pl"
  shows "pl < y \<and> y < pr"
proof -
  have "y = snd (quicksort_partition v tosort pl pr)" using assms(1) by (metis snd_conv)
  then show ?thesis using quicksort_partition_bounds [OF assms(2)] by simp
qed

text \<open>
  The insertion sort of \<open>tosort[pl..pr]\<close> that finishes every range of at most 17
  entries; \<open>insertion_shift\<close> is its inner \<open>while\<close>.
\<close>

function insertion_shift :: "npfloat list \<Rightarrow> nat list \<Rightarrow> npfloat \<Rightarrow> nat \<Rightarrow> nat \<Rightarrow> nat list \<times> nat" where
  "insertion_shift v tosort vp pl j =
     (if pl < j \<and> float_lt vp (v ! (tosort ! (j - 1)))
      then insertion_shift v (tosort[j := tosort ! (j - 1)]) vp pl (j - 1)
      else (tosort, j))"
  by pat_completeness auto
termination
  by (relation "measure (\<lambda>(v, tosort, vp, pl, j). j)") auto

declare insertion_shift.simps [simp del]

function insertion_sort :: "npfloat list \<Rightarrow> nat list \<Rightarrow> nat \<Rightarrow> nat \<Rightarrow> nat \<Rightarrow> nat list" where
  "insertion_sort v tosort pl pr i =
     (if i \<le> pr
      then (let vi = tosort ! i
            in (case insertion_shift v tosort (v ! vi) pl i of
                  (tosort', j) \<Rightarrow> insertion_sort v (tosort'[j := vi]) pl pr (Suc i)))
      else tosort)"
  by pat_completeness auto
termination
  by (relation "measure (\<lambda>(v, tosort, pl, pr, i). Suc pr - i)") auto

declare insertion_sort.simps [simp del]

text \<open>
  \<open>aheapsort\<close> of the \<open>n\<close> entries from \<open>base\<close> on, to which the sort falls back when the
  depth limit is used up. The C code indexes from one: its \<open>a[k]\<close> is
  \<open>tosort[base + k - 1]\<close>. \<open>heap_sift\<close> is the sifting loop, \<open>heap_build\<close> the first
  \<open>for\<close> (from \<open>n >> 1\<close> down to 1), \<open>heap_extract\<close> the second.
\<close>

function heap_sift ::
  "npfloat list \<Rightarrow> nat list \<Rightarrow> nat \<Rightarrow> nat \<Rightarrow> nat \<Rightarrow> nat \<Rightarrow> nat \<Rightarrow> nat list \<times> nat" where
  "heap_sift v tosort base n tmp i j =
     (if 0 < j \<and> j \<le> n
      then (let j1 = (if j < n \<and> float_lt (v ! (tosort ! (base + j - 1))) (v ! (tosort ! (base + j)))
                      then j + 1 else j)
            in if float_lt (v ! tmp) (v ! (tosort ! (base + j1 - 1)))
               then heap_sift v (tosort[base + i - 1 := tosort ! (base + j1 - 1)]) base n tmp j1 (j1 + j1)
               else (tosort, i))
      else (tosort, i))"
  by pat_completeness auto
termination
  by (relation "measure (\<lambda>(v, tosort, base, n, tmp, i, j). Suc n - j)") auto

declare heap_sift.simps [simp del]

fun heap_build :: "npfloat list \<Rightarrow> nat list \<Rightarrow> nat \<Rightarrow> nat \<Rightarrow> nat \<Rightarrow> nat list" where
  "heap_build v tosort base n 0 = tosort"
| "heap_build v tosort base n (Suc l) =
     (let tmp = tosort ! (base + l)
      in (case heap_sift v tosort base n tmp (Suc l) (2 * Suc l) of
            (tosort', i) \<Rightarrow> heap_build v (tosort'[base + i - 1 := tmp]) base n l))"

function heap_extract :: "npfloat list \<Rightarrow> nat list \<Rightarrow> nat \<Rightarrow> nat \<Rightarrow> nat list" where
  "heap_extract v tosort base n =
     (if 1 < n
      then (let tmp = tosort ! (base + n - 1);
                t1 = tosort[base + n - 1 := tosort ! base]
            in (case heap_sift v t1 base (n - 1) tmp 1 2 of
                  (t2, i) \<Rightarrow> heap_extract v (t2[base + i - 1 := tmp]) base (n - 1)))
      else tosort)"
  by pat_completeness auto
termination
  by (relation "measure (\<lambda>(v, tosort, base, n). n)") auto

declare heap_extract.simps [simp del]

definition aheapsort :: "npfloat list \<Rightarrow> nat list \<Rightarrow> nat \<Rightarrow> nat \<Rightarrow> nat list" where
  "aheapsort v tosort base n = heap_extract v (heap_build v tosort base n (n div 2)) base n"

text \<open>\<open>npy_get_msb\<close>: the position of the highest set bit.\<close>

function npy_get_msb :: "nat \<Rightarrow> nat" where
  "npy_get_msb n = (if n div 2 = 0 then 0 else Suc (npy_get_msb (n div 2)))"
  by pat_completeness auto
termination
  by (relation "measure (\<lambda>n. n)") auto

declare npy_get_msb.simps [simp del]

text \<open>
  \<open>aquicksort\<close> on \<open>tosort[pl..pr]\<close>. The C code keeps a stack of ranges: after a
  partition it pushes the larger part with the decremented depth and goes on with the
  smaller one; a range popped from the stack is heap-sorted when its depth is negative
  (the test is at the top of the outer loop only, hence the flag \<open>popped\<close>). The ranges
  are disjoint and the stack is last in, first out, so the smaller part is sorted
  completely before the pushed one is popped: that is the nesting below.
\<close>

function aquicksort ::
  "npfloat list \<Rightarrow> nat list \<Rightarrow> nat \<Rightarrow> nat \<Rightarrow> int \<Rightarrow> bool \<Rightarrow> nat list" where
  "aquicksort v tosort pl pr cdepth popped =
     (if popped \<and> cdepth < 0 then aheapsort v tosort pl (Suc pr - pl)
      else if 16 < pr - pl then
        (case quicksort_partition v tosort pl pr of
           (tosort', i) \<Rightarrow>
             (if i - pl < pr - i
              then aquicksort v (aquicksort v tosort' pl (i - 1) (cdepth - 1) False)
                     (Suc i) pr (cdepth - 1) True
              else aquicksort v (aquicksort v tosort' (Suc i) pr (cdepth - 1) False)
                     pl (i - 1) (cdepth - 1) True))
      else insertion_sort v tosort pl pr (Suc pl))"
  by pat_completeness auto
termination
proof (relation "measure (\<lambda>(v, tosort, pl, pr, cdepth, popped). pr - pl)", goal_cases)
  case 1
  show ?case by simp
next
  case (2 v tosort pl pr cdepth popped x y)
  from quicksort_partition_pair [OF 2(3) 2(2)] show ?case by auto
next
  case (3 v tosort pl pr cdepth popped x y)
  from quicksort_partition_pair [OF 3(3) 3(2)] show ?case by auto
next
  case (4 v tosort pl pr cdepth popped x y)
  from quicksort_partition_pair [OF 4(3) 4(2)] show ?case by auto
next
  case (5 v tosort pl pr cdepth popped x y)
  from quicksort_partition_pair [OF 5(3) 5(2)] show ?case by auto
qed

declare aquicksort.simps [simp del]

text \<open>
  \<open>np.argsort(a, axis=None)\<close> with the default kind on a buffer of doubles: the index
  array starts as \<open>0 .. n - 1\<close> and the depth limit as twice the highest bit of \<open>n\<close>.
\<close>

definition numpy_argsort :: "npfloat list \<Rightarrow> nat list" where
  "numpy_argsort v =
     aquicksort v [0..<length v] 0 (length v - 1) (2 * int (npy_get_msb (length v))) True"

section \<open>Greedy matching\<close>

type_synonym edge = "nat \<times> nat"

text \<open>\<open>del xs[i]\<close>.\<close>

definition del_at :: "nat \<Rightarrow> 'a list \<Rightarrow> 'a list" where
  "del_at i xs = take i xs @ drop (Suc i) xs"

text \<open>
  The inner loop of \<open>greedy_matching\<close>: \<open>for i in range(len(unassigned_edges) - 1, -1, -1)\<close>,
  deleting every edge that has the assigned row or the assigned column. The first
  argument counts the positions still to visit, so position \<open>i\<close> is visited when it
  is \<open>Suc i\<close>.
\<close>

fun remove_assigned :: "nat \<Rightarrow> nat \<Rightarrow> nat \<Rightarrow> edge list \<Rightarrow> edge list" where
  "remove_assigned 0 row_ind col_ind unassigned_edges = unassigned_edges"
| "remove_assigned (Suc i) row_ind col_ind unassigned_edges =
     remove_assigned i row_ind col_ind
       (if fst (unassigned_edges ! i) = row_ind \<or> snd (unassigned_edges ! i) = col_ind
        then del_at i unassigned_edges else unassigned_edges)"

lemma remove_assigned_filter_gen:
  "i \<le> length es \<Longrightarrow>
   remove_assigned i r c es = filter (\<lambda>e. fst e \<noteq> r \<and> snd e \<noteq> c) (take i es) @ drop i es"
proof (induction i arbitrary: es)
  case 0
  then show ?case by simp
next
  case (Suc i)
  then have lt: "i < length es" by simp
  show ?case
  proof (cases "fst (es ! i) = r \<or> snd (es ! i) = c")
    case True
    have le: "i \<le> length (del_at i es)" using lt by (simp add: del_at_def)
    have "remove_assigned (Suc i) r c es = remove_assigned i r c (del_at i es)"
      using True by simp
    also have "\<dots> = filter (\<lambda>e. fst e \<noteq> r \<and> snd e \<noteq> c) (take i (del_at i es)) @ drop i (del_at i es)"
      using Suc.IH [OF le] .
    also have "take i (del_at i es) = take i es" using lt by (simp add: del_at_def)
    also have "drop i (del_at i es) = drop (Suc i) es" using lt by (simp add: del_at_def)
    finally show ?thesis using True lt by (auto simp: take_Suc_conv_app_nth)
  next
    case False
    have "remove_assigned (Suc i) r c es = remove_assigned i r c es"
      using False by simp
    also have "\<dots> = filter (\<lambda>e. fst e \<noteq> r \<and> snd e \<noteq> c) (take i es) @ drop i es"
      using Suc.IH lt by simp
    finally show ?thesis using False lt
      by (simp add: take_Suc_conv_app_nth Cons_nth_drop_Suc)
  qed
qed

lemma remove_assigned_filter:
  "remove_assigned (length es) r c es = filter (\<lambda>e. fst e \<noteq> r \<and> snd e \<noteq> c) es"
  by (simp add: remove_assigned_filter_gen)

text \<open>
  The outer loop: \<open>while len(unassigned_edges) > 0\<close>, popping the first edge, appending
  it to \<open>assignments\<close> and removing the edges it excludes.
\<close>

function greedy_loop :: "edge list \<Rightarrow> edge list \<Rightarrow> edge list" where
  "greedy_loop [] assignments = assignments"
| "greedy_loop ((row_ind, col_ind) # unassigned_edges) assignments =
     greedy_loop (remove_assigned (length unassigned_edges) row_ind col_ind unassigned_edges)
       (assignments @ [(row_ind, col_ind)])"
  by pat_completeness auto
termination
proof (relation "measure (\<lambda>(es, acc). length es)")
  show "wf (measure (\<lambda>(es, acc). length es))" by simp
next
  fix row_ind col_ind :: nat and unassigned_edges assignments :: "edge list"
  have "length (filter (\<lambda>e. fst e \<noteq> row_ind \<and> snd e \<noteq> col_ind) unassigned_edges)
          \<le> length unassigned_edges"
    by (rule length_filter_le)
  then show "((remove_assigned (length unassigned_edges) row_ind col_ind unassigned_edges,
               assignments @ [(row_ind, col_ind)]),
              ((row_ind, col_ind) # unassigned_edges, assignments))
             \<in> measure (\<lambda>(es, acc). length es)"
    by (simp add: remove_assigned_filter le_imp_less_Suc)
qed

text \<open>
  \<open>greedy_matching\<close>: the cells in the order \<open>np.argsort\<close> gives, then the loop from an
  empty list of assignments. The first argument is \<open>np.argsort\<close>.
\<close>

definition sorted_edges :: "(npfloat list \<Rightarrow> nat list) \<Rightarrow> ndarray \<Rightarrow> edge list" where
  "sorted_edges argsort cost_matrix =
     map (unravel_index (ncols cost_matrix)) (argsort (data cost_matrix))"

definition greedy_matching :: "(npfloat list \<Rightarrow> nat list) \<Rightarrow> ndarray \<Rightarrow> edge list" where
  "greedy_matching argsort cost_matrix = greedy_loop (sorted_edges argsort cost_matrix) []"

section \<open>Properties of the greedy loop\<close>

definition free_of :: "edge \<Rightarrow> edge \<Rightarrow> bool" where
  "free_of a e \<longleftrightarrow> fst e \<noteq> fst a \<and> snd e \<noteq> snd a"

lemma greedy_loop_Cons:
  "greedy_loop (a # es) acc = greedy_loop (filter (free_of a) es) (acc @ [a])"
proof -
  have "(\<lambda>e. fst e \<noteq> fst a \<and> snd e \<noteq> snd a) = free_of a"
    by (simp add: free_of_def fun_eq_iff)
  then show ?thesis
    by (cases a) (simp add: remove_assigned_filter)
qed

lemma greedy_loop_acc: "greedy_loop es acc = acc @ greedy_loop es []"
proof (induction es arbitrary: acc rule: length_induct)
  case (1 es)
  show ?case
  proof (cases es)
    case Nil
    then show ?thesis by simp
  next
    case (Cons a es')
    have len: "length (filter (free_of a) es') < length es"
      using Cons by (simp add: le_imp_less_Suc)
    have "greedy_loop es acc = greedy_loop (filter (free_of a) es') (acc @ [a])"
      using Cons by (simp only: greedy_loop_Cons)
    also have "\<dots> = (acc @ [a]) @ greedy_loop (filter (free_of a) es') []"
      using 1 len by blast
    also have "\<dots> = acc @ greedy_loop (filter (free_of a) es') [a]"
      using 1 len by (metis append.assoc)
    also have "\<dots> = acc @ greedy_loop es []"
      using Cons by (simp only: greedy_loop_Cons append_Nil)
    finally show ?thesis .
  qed
qed

lemma greedy_loop_step:
  "greedy_loop (a # es) [] = a # greedy_loop (filter (free_of a) es) []"
proof -
  have "greedy_loop (a # es) [] = greedy_loop (filter (free_of a) es) [a]"
    by (simp only: greedy_loop_Cons append_Nil)
  also have "\<dots> = [a] @ greedy_loop (filter (free_of a) es) []"
    by (rule greedy_loop_acc)
  finally show ?thesis by simp
qed

lemma greedy_loop_subset: "set (greedy_loop es []) \<subseteq> set es"
proof (induction es rule: length_induct)
  case (1 es)
  show ?case
  proof (cases es)
    case Nil
    then show ?thesis by simp
  next
    case (Cons a es')
    have len: "length (filter (free_of a) es') < length es"
      using Cons by (simp add: le_imp_less_Suc)
    have "set (greedy_loop (filter (free_of a) es') []) \<subseteq> set (filter (free_of a) es')"
      using 1 len by blast
    then show ?thesis using Cons by (auto simp: greedy_loop_step)
  qed
qed

lemma greedy_loop_distinct_rows_cols:
  "distinct (map fst (greedy_loop es [])) \<and> distinct (map snd (greedy_loop es []))"
proof (induction es rule: length_induct)
  case (1 es)
  show ?case
  proof (cases es)
    case Nil
    then show ?thesis by simp
  next
    case (Cons a es')
    let ?rest = "greedy_loop (filter (free_of a) es') []"
    have len: "length (filter (free_of a) es') < length es"
      using Cons by (simp add: le_imp_less_Suc)
    have ih: "distinct (map fst ?rest) \<and> distinct (map snd ?rest)"
      using 1 len by blast
    have sub: "set ?rest \<subseteq> set (filter (free_of a) es')"
      by (rule greedy_loop_subset)
    have "fst a \<notin> fst ` set ?rest" "snd a \<notin> snd ` set ?rest"
      using sub by (auto simp: free_of_def)
    then show ?thesis using ih Cons by (simp add: greedy_loop_step)
  qed
qed

lemma greedy_matching_distinct:
  "distinct (map fst (greedy_matching argsort a))" "distinct (map snd (greedy_matching argsort a))"
  unfolding greedy_matching_def using greedy_loop_distinct_rows_cols by blast+

text \<open>
  Claim C4: the edge list returned by the greedy solver uses each detection (row) index
  at most once and each track (column) index at most once, for every cost matrix (and
  whatever order \<open>np.argsort\<close> returns).
\<close>

theorem greedy_matching_indices_used_once:
  "distinct (map fst (greedy_matching argsort cost_matrix)) \<and>
   distinct (map snd (greedy_matching argsort cost_matrix))"
  unfolding greedy_matching_def by (rule greedy_loop_distinct_rows_cols)

section \<open>Order of consideration and of selection\<close>

lemma is_argsort_set: "is_argsort xs ks \<Longrightarrow> set ks = {0..<length xs}"
proof -
  assume "is_argsort xs ks"
  then have "set (sort ks) = set [0..<length xs]" by (simp add: is_argsort_def)
  then show ?thesis by simp
qed

lemma is_argsort_distinct: "is_argsort xs ks \<Longrightarrow> distinct ks"
proof -
  assume "is_argsort xs ks"
  then have "distinct (sort ks) = distinct [0..<length xs]" by (simp add: is_argsort_def)
  then show ?thesis by simp
qed

lemma stable_argsort_is_argsort: "is_argsort xs (stable_argsort xs)"
proof -
  let ?ks = "stable_argsort xs"
  have "sorted (sort ?ks)" "distinct (sort ?ks)" "set (sort ?ks) = set [0..<length xs]"
    by (simp_all add: stable_argsort_def)
  then have "sort ?ks = [0..<length xs]"
    by (intro sorted_distinct_set_unique) simp_all
  moreover have "sorted (map (\<lambda>k. sort_rank (xs ! k)) ?ks)"
    by (simp add: stable_argsort_def)
  ultimately show ?thesis by (simp add: is_argsort_def)
qed

lemma argsort_before:
  assumes srt: "is_argsort xs ks"
    and split: "ks = us @ e # vs"
    and c: "c < length xs"
    and before: "sort_rank (xs ! c) < sort_rank (xs ! e) \<or>
                 (sort_rank (xs ! c) = sort_rank (xs ! e) \<and> c < e \<and> ks = stable_argsort xs)"
  shows "c \<in> set us"
proof (rule ccontr)
  assume notin: "c \<notin> set us"
  let ?f = "\<lambda>k. sort_rank (xs ! k)"
  have "c \<in> set ks" using c is_argsort_set [OF srt] by simp
  moreover have "c \<noteq> e" using before by auto
  ultimately have cvs: "c \<in> set vs" using split notin by auto
  have "sorted (map ?f ks)" using srt by (simp add: is_argsort_def)
  then have "?f e \<le> ?f c" using split cvs by (auto simp: sorted_append)
  with before have eq: "?f c = ?f e" and lt: "c < e" and st: "ks = stable_argsort xs" by auto
  have "filter (\<lambda>y. ?f y = ?f e) ks = filter (\<lambda>y. ?f y = ?f e) [0..<length xs]"
    unfolding st stable_argsort_def by (rule sort_key_stable)
  moreover have "sorted_wrt (<) (filter (\<lambda>y. ?f y = ?f e) [0..<length xs])"
    by (rule sorted_wrt_filter) simp
  ultimately have "sorted_wrt (<) (filter (\<lambda>y. ?f y = ?f e) (us @ e # vs))"
    using split by simp
  then have "e < c" using cvs eq by (auto simp: sorted_wrt_append)
  with lt show False by simp
qed

lemma greedy_loop_distinct: "distinct es \<Longrightarrow> distinct (greedy_loop es [])"
proof (induction es rule: length_induct)
  case (1 es)
  show ?case
  proof (cases es)
    case Nil
    then show ?thesis by simp
  next
    case (Cons a es')
    let ?rest = "greedy_loop (filter (free_of a) es') []"
    have len: "length (filter (free_of a) es') < length es"
      using Cons by (simp add: le_imp_less_Suc)
    have "distinct (filter (free_of a) es')" using 1(2) Cons by simp
    then have "distinct ?rest" using 1(1) len by blast
    moreover have "set ?rest \<subseteq> set (filter (free_of a) es')" by (rule greedy_loop_subset)
    then have "a \<notin> set ?rest" using 1(2) Cons by auto
    ultimately show ?thesis using Cons by (simp add: greedy_loop_step)
  qed
qed

lemma greedy_loop_earlier:
  assumes "distinct es" "es = A @ e # B" "greedy_loop es [] = pre @ e # post" "c \<in> set A"
  shows "c \<in> set pre \<or> (\<exists>a \<in> set pre. \<not> free_of a c)"
  using assms
proof (induction es arbitrary: A B pre rule: length_induct)
  case (1 es)
  show ?case
  proof (cases A)
    case Nil
    with 1(5) show ?thesis by simp
  next
    case (Cons x A')
    let ?es' = "A' @ e # B"
    let ?rest = "greedy_loop (filter (free_of x) ?es') []"
    have es: "es = x # ?es'" using 1(3) Cons by simp
    have xe: "x \<noteq> e" using 1(2) es by auto
    have res: "pre @ e # post = x # ?rest"
      using 1(4) es by (simp add: greedy_loop_step)
    then obtain pre' where pre: "pre = x # pre'" and rest: "?rest = pre' @ e # post"
      using xe by (cases pre) auto
    have "e \<in> set ?rest" using rest by simp
    then have "e \<in> set (filter (free_of x) ?es')" using greedy_loop_subset by blast
    then have fe: "free_of x e" by (simp only: set_filter mem_Collect_eq)
    have split: "filter (free_of x) ?es' = filter (free_of x) A' @ e # filter (free_of x) B"
      using fe by simp
    have "length (filter (free_of x) ?es') \<le> length ?es'" by (rule length_filter_le)
    then have len: "length (filter (free_of x) ?es') < length es"
      unfolding es by simp
    have "distinct ?es'" using 1(2) es by simp
    then have dist: "distinct (filter (free_of x) ?es')" by (rule distinct_filter)
    show ?thesis
    proof (cases "c = x \<or> \<not> free_of x c")
      case True
      then show ?thesis using pre by auto
    next
      case False
      then have "c \<in> set (filter (free_of x) A')" using 1(5) Cons by auto
      then have "c \<in> set pre' \<or> (\<exists>a \<in> set pre'. \<not> free_of a c)"
        using 1(1) len dist split rest by blast
      then show ?thesis using pre by auto
    qed
  qed
qed

lemma unravel_index_inj: "inj (unravel_index m)"
proof (rule injI)
  fix x y assume "unravel_index m x = unravel_index m y"
  then have "x div m = y div m" "x mod m = y mod m" by (simp_all add: unravel_index_def)
  then show "x = y" by (metis div_mult_mod_eq)
qed

lemma unravel_index_flat: "j < m \<Longrightarrow> unravel_index m (i * m + j) = (i, j)"
  by (simp add: unravel_index_def)

lemma cell_unravel_index: "cell a (unravel_index (ncols a) k) = data a ! k"
  by (simp add: cell_def unravel_index_def)

lemma flat_index_bound: "i < n \<Longrightarrow> j < m \<Longrightarrow> i * m + j < n * (m::nat)"
proof -
  assume a: "i < n" "j < m"
  then have "i * m + j < i * m + m" by simp
  also have "\<dots> = Suc i * m" by simp
  also have "\<dots> \<le> n * m" using a(1) by (intro mult_le_mono1) simp
  finally show ?thesis .
qed

lemma flat_index_mono:
  "j < m \<Longrightarrow> i' < i \<or> (i' = i \<and> j' < j) \<Longrightarrow> j' < m \<Longrightarrow> i' * m + j' < i * m + (j::nat)"
proof -
  assume a: "j < m" "i' < i \<or> (i' = i \<and> j' < j)" "j' < m"
  show ?thesis
  proof (cases "i' < i")
    case True
    have "i' * m + j' < Suc i' * m" using a(3) by simp
    also have "\<dots> \<le> i * m" using True by (intro mult_le_mono1) simp
    finally show ?thesis by simp
  next
    case False
    with a(2) show ?thesis by simp
  qed
qed

lemma greedy_matching_earlier:
  assumes res: "greedy_matching argsort cm = pre @ (i, j) # post"
    and srt: "is_argsort (data cm) (argsort (data cm))"
    and c: "j' < ncols cm" "i' * ncols cm + j' < length (data cm)"
    and before: "sort_rank (cell cm (i', j')) < sort_rank (cell cm (i, j)) \<or>
        (sort_rank (cell cm (i', j')) = sort_rank (cell cm (i, j)) \<and>
         i' * ncols cm + j' < i * ncols cm + j \<and> j < ncols cm \<and>
         argsort (data cm) = stable_argsort (data cm))"
  shows "(i', j') \<in> set pre \<or> (\<exists>a \<in> set pre. \<not> free_of a (i', j'))"
proof -
  let ?m = "ncols cm"
  let ?u = "unravel_index ?m"
  let ?es = "sorted_edges argsort cm"
  have dist: "distinct ?es"
    unfolding sorted_edges_def
    by (simp add: distinct_map is_argsort_distinct [OF srt] inj_on_subset [OF unravel_index_inj])
  have "(i, j) \<in> set (greedy_loop ?es [])" using res by (simp add: greedy_matching_def)
  then have "(i, j) \<in> set ?es" using greedy_loop_subset by blast
  then obtain k where k: "k \<in> set (argsort (data cm))" "?u k = (i, j)"
    by (auto simp: sorted_edges_def)
  then obtain us vs where split: "argsort (data cm) = us @ k # vs"
    by (auto simp: in_set_conv_decomp)
  let ?k' = "i' * ?m + j'"
  have uk': "?u ?k' = (i', j')" using c(1) by (rule unravel_index_flat)
  have ck: "cell cm (i, j) = data cm ! k" using k(2) cell_unravel_index [of cm k] by simp
  have ck': "cell cm (i', j') = data cm ! ?k'" using uk' cell_unravel_index [of cm ?k'] by simp
  have kk: "j < ?m \<Longrightarrow> k = i * ?m + j"
  proof -
    assume "j < ?m"
    then have "?u (i * ?m + j) = ?u k" using k(2) by (simp add: unravel_index_flat)
    then show ?thesis using unravel_index_inj by (metis injD)
  qed
  have "?k' \<in> set us"
  proof (rule argsort_before [OF srt split c(2)])
    show "sort_rank (data cm ! ?k') < sort_rank (data cm ! k) \<or>
          sort_rank (data cm ! ?k') = sort_rank (data cm ! k) \<and> ?k' < k \<and>
          argsort (data cm) = stable_argsort (data cm)"
      using before ck ck' kk by auto
  qed
  then have "(i', j') \<in> set (map ?u us)" using uk' by force
  moreover have "?es = map ?u us @ (i, j) # map ?u vs"
    using split k(2) by (simp add: sorted_edges_def)
  moreover have "greedy_loop ?es [] = pre @ (i, j) # post"
    using res by (simp add: greedy_matching_def)
  ultimately show ?thesis using dist greedy_loop_earlier by blast
qed

lemma greedy_matching_in_range:
  assumes "valid_array cm" "is_argsort (data cm) (argsort (data cm))"
    and "(i, j) \<in> set (greedy_matching argsort cm)"
  shows "i < nrows cm \<and> j < ncols cm"
proof -
  have "(i, j) \<in> set (sorted_edges argsort cm)"
    using assms(3) greedy_loop_subset by (auto simp: greedy_matching_def)
  then obtain k where k: "k < length (data cm)" "unravel_index (ncols cm) k = (i, j)"
    using is_argsort_set [OF assms(2)] by (auto simp: sorted_edges_def)
  have kn: "k < nrows cm * ncols cm" using k(1) assms(1) by (simp add: valid_array_def)
  then have pos: "0 < ncols cm" by (cases "ncols cm") auto
  have "k div ncols cm < nrows cm"
    using kn by (simp add: less_mult_imp_div_less)
  moreover have "k mod ncols cm < ncols cm" using pos by simp
  ultimately show ?thesis using k(2) by (simp add: unravel_index_def)
qed

definition inf_only :: ndarray where
  "inf_only = \<lparr>nrows = 1, ncols = 1, data = [PosInf]\<rparr>"

definition inf_corner :: ndarray where
  "inf_corner = \<lparr>nrows = 2, ncols = 2, data = [Fin 0, Fin 1, Fin 2, PosInf]\<rparr>"

definition all_equal :: ndarray where
  "all_equal = \<lparr>nrows = 2, ncols = 2, data = [Fin 0, Fin 0, Fin 0, Fin 0]\<rparr>"

definition all_equal_3x6 :: ndarray where
  "all_equal_3x6 = \<lparr>nrows = 3, ncols = 6, data = replicate 18 (Fin 0)\<rparr>"

lemma greedy_matching_inf_corner: "greedy_matching numpy_argsort inf_corner = [(0, 0), (1, 1)]"
  by code_simp

lemma greedy_matching_all_equal: "greedy_matching numpy_argsort all_equal = [(0, 0), (1, 1)]"
  by code_simp

text \<open>
  Claim C1, as stated (the greedy solver never returns a pair whose cost is \<open>inf\<close>), fails:
  on the one-cell matrix \<open>[[inf]]\<close> the only edge is sorted, popped and assigned like
  any other, since the loop never looks at the cost.
\<close>

theorem greedy_matching_returns_inf_edge:
  "valid_array inf_only \<and> greedy_matching numpy_argsort inf_only = [(0, 0)] \<and>
   cell inf_only (0, 0) = PosInf"
proof -
  have "greedy_matching numpy_argsort inf_only = [(0, 0)]" by code_simp
  then show ?thesis by (simp add: inf_only_def valid_array_def cell_def)
qed

text \<open>
  Claim C1, amended: the greedy solver returns a pair \<open>(i, j)\<close> whose cost is \<open>inf\<close> only
  after the finite costs are exhausted: every cell of finite cost is returned before
  \<open>(i, j)\<close>, or shares its row or its column with a pair returned before \<open>(i, j)\<close>. This
  holds for every order \<open>np.argsort\<close> can return, stable or not.
\<close>

theorem greedy_matching_inf_after_finite:
  assumes "is_argsort (data cm) (argsort (data cm))"
    and "valid_array cm"
    and "greedy_matching argsort cm = pre @ (i, j) # post"
    and "cell cm (i, j) = PosInf"
    and "i' < nrows cm" and "j' < ncols cm"
    and "cell cm (i', j') = Fin r"
  shows "(i', j') \<in> set pre \<or> (\<exists>a \<in> set pre. fst a = i' \<or> snd a = j')"
proof -
  have "i' * ncols cm + j' < length (data cm)"
    using assms(2,5,6) by (simp add: valid_array_def flat_index_bound)
  moreover have "sort_rank (cell cm (i', j')) < sort_rank (cell cm (i, j))"
    using assms(4,7) by simp
  ultimately have "(i', j') \<in> set pre \<or> (\<exists>a \<in> set pre. \<not> free_of a (i', j'))"
    using greedy_matching_earlier [where argsort = argsort, OF assms(3) assms(1) assms(6)]
    by blast
  then show ?thesis by (auto simp: free_of_def)
qed

theorem greedy_matching_inf_after_finite_witness:
  "is_argsort (data inf_corner) (numpy_argsort (data inf_corner)) \<and>
   valid_array inf_corner \<and> greedy_matching numpy_argsort inf_corner = [(0, 0)] @ (1, 1) # [] \<and>
   cell inf_corner (1, 1) = PosInf \<and> 0 < nrows inf_corner \<and> 1 < ncols inf_corner \<and>
   cell inf_corner (0, 1) = Fin 1 \<and>
   ((0, 1) \<in> set [(0, 0)] \<or> (\<exists>a \<in> set [(0::nat, 0::nat)]. fst a = 0 \<or> snd a = 1))"
proof -
  have s: "is_argsort (data inf_corner) (numpy_argsort (data inf_corner))" by code_simp
  have v: "valid_array inf_corner" by (simp add: valid_array_def inf_corner_def)
  have g: "greedy_matching numpy_argsort inf_corner = [(0, 0)] @ (1, 1) # []"
    by (simp add: greedy_matching_inf_corner)
  have c: "cell inf_corner (1, 1) = PosInf" by (simp add: cell_def inf_corner_def)
  have i: "0 < nrows inf_corner" and j: "1 < ncols inf_corner" by (simp_all add: inf_corner_def)
  have f: "cell inf_corner (0, 1) = Fin 1" by (simp add: cell_def inf_corner_def)
  show ?thesis
    using s v g c i j f
      greedy_matching_inf_after_finite [where argsort = numpy_argsort, OF s v g c i j f]
    by simp
qed

text \<open>
  Claim C8, as stated (cells of equal cost are picked in row-major order), fails. On the
  3 by 6 matrix of equal costs NumPy's default sort returns the positions
  \<open>0, 15, 14, ..., 1, 16, 17\<close>, so the second pair the solver returns is \<open>(2, 3)\<close>. The
  cell \<open>(1, 1)\<close> has the same cost and comes before \<open>(2, 3)\<close> in row-major order, and
  the only pair returned before, \<open>(0, 0)\<close>, has neither its row nor its column: it was
  still to be picked, and was passed over. A stable sort gives \<open>(0, 0), (1, 1), (2, 2)\<close>.
\<close>

theorem greedy_matching_ties_not_row_major:
  "numpy_argsort (data all_equal_3x6) =
     [0, 15, 14, 13, 12, 11, 10, 9, 8, 7, 6, 5, 4, 3, 2, 1, 16, 17] \<and>
   greedy_matching numpy_argsort all_equal_3x6 = [(0, 0), (2, 3), (1, 5)] \<and>
   cell all_equal_3x6 (1, 1) = cell all_equal_3x6 (2, 3) \<and>
   free_of (0, 0) (1, 1) \<and>
   greedy_matching stable_argsort all_equal_3x6 = [(0, 0), (1, 1), (2, 2)]"
proof -
  have "numpy_argsort (data all_equal_3x6) =
     [0, 15, 14, 13, 12, 11, 10, 9, 8, 7, 6, 5, 4, 3, 2, 1, 16, 17]" by code_simp
  moreover have "greedy_matching numpy_argsort all_equal_3x6 = [(0, 0), (2, 3), (1, 5)]"
    by code_simp
  moreover have "greedy_matching stable_argsort all_equal_3x6 = [(0, 0), (1, 1), (2, 2)]"
    by code_simp
  moreover have "cell all_equal_3x6 (1, 1) = cell all_equal_3x6 (2, 3)"
    by (simp add: cell_def all_equal_3x6_def)
  ultimately show ?thesis by (simp add: free_of_def)
qed

text \<open>
  Claim C8, amended: the result of the greedy solver is determined by the cost matrix and
  the order \<open>np.argsort\<close> returns for it. When that order is the one of a stable sort,
  which keeps cells of equal cost in their original order, the result is the one the
  stable sort determines, and cells of equal cost are picked in row-major order: if a
  returned pair \<open>(i, j)\<close> has the same cost as a cell \<open>(i', j')\<close> that comes before it in the
  (row, column) enumeration, that cell was returned before \<open>(i, j)\<close>, or was discarded
  because a pair returned before \<open>(i, j)\<close> has its row or its column. The default sort
  that the code calls does not promise that order.
\<close>

theorem greedy_matching_ties_row_major:
  assumes "argsort (data cm) = stable_argsort (data cm)"
    and "valid_array cm"
    and "greedy_matching argsort cm = pre @ (i, j) # post"
    and "i' < nrows cm" and "j' < ncols cm"
    and "cell cm (i', j') = cell cm (i, j)"
    and "i' < i \<or> (i' = i \<and> j' < j)"
  shows "greedy_matching argsort cm = greedy_matching stable_argsort cm \<and>
         ((i', j') \<in> set pre \<or> (\<exists>a \<in> set pre. fst a = i' \<or> snd a = j'))"
proof -
  have same: "greedy_matching argsort cm = greedy_matching stable_argsort cm"
    using assms(1) by (simp add: greedy_matching_def sorted_edges_def)
  have srt: "is_argsort (data cm) (argsort (data cm))"
    using assms(1) stable_argsort_is_argsort by simp
  have "(i, j) \<in> set (greedy_matching argsort cm)" using assms(3) by simp
  then have j: "j < ncols cm" using greedy_matching_in_range [where argsort = argsort, OF assms(2) srt] by blast
  have "i' * ncols cm + j' < length (data cm)"
    using assms(2,4,5) by (simp add: valid_array_def flat_index_bound)
  moreover have "i' * ncols cm + j' < i * ncols cm + j"
    using j assms(7) assms(5) by (rule flat_index_mono)
  ultimately have "(i', j') \<in> set pre \<or> (\<exists>a \<in> set pre. \<not> free_of a (i', j'))"
    using greedy_matching_earlier [where argsort = argsort, OF assms(3) srt assms(5)]
      assms(1,6) j
    by simp
  then show ?thesis using same by (auto simp: free_of_def)
qed

theorem greedy_matching_ties_row_major_witness:
  "numpy_argsort (data all_equal) = stable_argsort (data all_equal) \<and>
   valid_array all_equal \<and> greedy_matching numpy_argsort all_equal = [(0, 0)] @ (1, 1) # [] \<and>
   0 < nrows all_equal \<and> 1 < ncols all_equal \<and>
   cell all_equal (0, 1) = cell all_equal (1, 1) \<and>
   greedy_matching numpy_argsort all_equal = greedy_matching stable_argsort all_equal \<and>
   ((0, 1) \<in> set [(0, 0)] \<or> (\<exists>a \<in> set [(0::nat, 0::nat)]. fst a = 0 \<or> snd a = 1))"
proof -
  have s: "numpy_argsort (data all_equal) = stable_argsort (data all_equal)" by code_simp
  have v: "valid_array all_equal" by (simp add: valid_array_def all_equal_def)
  have g: "greedy_matching numpy_argsort all_equal = [(0, 0)] @ (1, 1) # []"
    by (simp add: greedy_matching_all_equal)
  have i: "0 < nrows all_equal" and j: "1 < ncols all_equal" by (simp_all add: all_equal_def)
  have c: "cell all_equal (0, 1) = cell all_equal (1, 1)" by (simp add: cell_def all_equal_def)
  have o: "(0::nat) < 1 \<or> ((0::nat) = 1 \<and> (1::nat) < 1)" by simp
  show ?thesis
    using s v g i j c
      greedy_matching_ties_row_major [where argsort = numpy_argsort, OF s v g i j c o]
    by simp
qed

section \<open>Optimal matching\<close>

text \<open>The exceptions the model can raise.\<close>

datatype error = ValueError | IndexError | KeyError | AttributeError

text \<open>
  Arrays are mutable objects passed by reference. The store gives the array held at each
  address; a function that writes into an array returns the store it leaves.
\<close>

type_synonym heap = "nat \<Rightarrow> ndarray"

text \<open>The assignment \<open>a[sel] = v\<close> with a boolean array \<open>sel\<close> of the shape of \<open>a\<close>.\<close>

definition assign_masked :: "ndarray \<Rightarrow> bool list \<Rightarrow> npfloat \<Rightarrow> ndarray" where
  "assign_masked a sel v = a\<lparr>data := map2 (\<lambda>x b. if b then v else x) (data a) sel\<rparr>"

fun is_finite :: "npfloat \<Rightarrow> bool" where
  "is_finite (Fin r) = True"
| "is_finite NegInf = False"
| "is_finite PosInf = False"
| "is_finite NaN = False"

text \<open>The number a finite double stands for (totals are only taken of finite entries).\<close>

fun real_of :: "npfloat \<Rightarrow> real" where
  "real_of (Fin r) = r"
| "real_of NegInf = 0"
| "real_of PosInf = 0"
| "real_of NaN = 0"

text \<open>The cells of an array in row-major order, and the total cost of a list of edges.\<close>

definition cells :: "ndarray \<Rightarrow> edge list" where
  "cells a = List.product [0..<nrows a] [0..<ncols a]"

definition total_cost :: "ndarray \<Rightarrow> edge list \<Rightarrow> real" where
  "total_cost a es = sum_list (map (\<lambda>e. real_of (cell a e)) es)"

text \<open>
  A complete assignment of a rectangular matrix: no row and no column twice, and as
  many edges as the smaller dimension.
\<close>

definition is_assignment :: "ndarray \<Rightarrow> edge list \<Rightarrow> bool" where
  "is_assignment a es \<longleftrightarrow>
     distinct (map fst es) \<and> distinct (map snd es) \<and> length es = min (nrows a) (ncols a)"

text \<open>
  Modelled from the spec: \<open>scipy.optimize.linear_sum_assignment\<close> is SciPy's and is not in
  the sources. Following the specification ("solve the rectangular linear assignment
  problem to minimize total cost"), it returns the row and column indices of a complete
  assignment of least total cost, rows ascending, found here by searching all of them.
  Which minimiser is returned among several is not specified; the model takes the first
  in enumeration order. A matrix with an entry that is not a finite number is rejected
  with \<open>ValueError\<close>, as SciPy does for NaN, the only such entry that can reach the call
  from \<open>hungarian_matching\<close>.
\<close>

definition linear_sum_assignment :: "ndarray \<Rightarrow> error + nat list \<times> nat list" where
  "linear_sum_assignment a =
     (if list_all is_finite (data a)
      then (let best = arg_min_list (total_cost a) (filter (is_assignment a) (subseqs (cells a)))
            in Inr (map fst best, map snd best))
      else Inl ValueError)"

text \<open>
  \<open>hungarian_matching\<close>: \<open>cost_matrix[np.isinf(cost_matrix)] = 0\<close> writes into the
  caller's array, at the address it was given; then the assignment is solved on that
  array and the two index arrays are zipped. The store is returned also when SciPy raises.
\<close>

definition hungarian_matching :: "nat \<Rightarrow> heap \<Rightarrow> (error + edge list) \<times> heap" where
  "hungarian_matching cost_matrix h =
     (let h' = h(cost_matrix :=
                   assign_masked (h cost_matrix) (map isinf (data (h cost_matrix))) (Fin 0))
      in (case linear_sum_assignment (h' cost_matrix) of
            Inl e \<Rightarrow> (Inl e, h')
          | Inr (row_ind, col_ind) \<Rightarrow> (Inr (zip row_ind col_ind), h')))"

text \<open>
  The specification's wording of the normalisation, "replace any \<open>inf\<close> cost with \<open>0\<close>",
  as a function on arrays, to compare the code with.
\<close>

definition replace_inf_by_zero :: "ndarray \<Rightarrow> ndarray" where
  "replace_inf_by_zero a = a\<lparr>data := map (\<lambda>x. if isinf x then Fin 0 else x) (data a)\<rparr>"

subsection \<open>The greedy result is a complete assignment\<close>

lemma set_cells: "set (cells a) = {(i, j). i < nrows a \<and> j < ncols a}"
  by (auto simp: cells_def)

lemma distinct_cells: "distinct (cells a)"
  by (simp add: cells_def distinct_product)

lemma set_sorted_edges:
  assumes "valid_array a" and srt: "is_argsort (data a) (argsort (data a))"
  shows "set (sorted_edges argsort a) = set (cells a)"
proof (rule set_eqI)
  fix e :: edge
  obtain i j where e: "e = (i, j)" by (cases e)
  have n: "length (data a) = nrows a * ncols a" using assms by (simp add: valid_array_def)
  show "e \<in> set (sorted_edges argsort a) \<longleftrightarrow> e \<in> set (cells a)"
  proof
    assume "e \<in> set (sorted_edges argsort a)"
    then obtain k where k: "k < nrows a * ncols a" "unravel_index (ncols a) k = (i, j)"
      using e n is_argsort_set [OF srt] by (auto simp: sorted_edges_def)
    then have pos: "0 < ncols a" by (cases "ncols a") auto
    have "k div ncols a < nrows a" using k(1) by (simp add: less_mult_imp_div_less)
    moreover have "k mod ncols a < ncols a" using pos by simp
    ultimately show "e \<in> set (cells a)" using k(2) e by (simp add: set_cells unravel_index_def)
  next
    assume "e \<in> set (cells a)"
    then have ij: "i < nrows a" "j < ncols a" using e by (simp_all add: set_cells)
    then have "i * ncols a + j < length (data a)" using n by (simp add: flat_index_bound)
    then have "unravel_index (ncols a) (i * ncols a + j) \<in> set (sorted_edges argsort a)"
      unfolding sorted_edges_def using is_argsort_set [OF srt] by simp
    then show "e \<in> set (sorted_edges argsort a)" using ij(2) e by (simp add: unravel_index_flat)
  qed
qed

lemma greedy_loop_maximal:
  "c \<in> set es \<Longrightarrow> c \<in> set (greedy_loop es []) \<or> (\<exists>a \<in> set (greedy_loop es []). \<not> free_of a c)"
proof (induction es rule: length_induct)
  case (1 es)
  show ?case
  proof (cases es)
    case Nil
    with 1(2) show ?thesis by simp
  next
    case (Cons x es')
    let ?rest = "greedy_loop (filter (free_of x) es') []"
    have res: "greedy_loop es [] = x # ?rest" using Cons by (simp add: greedy_loop_step)
    have len: "length (filter (free_of x) es') < length es"
      using Cons by (simp add: le_imp_less_Suc)
    show ?thesis
    proof (cases "c = x \<or> \<not> free_of x c")
      case True
      then show ?thesis using res by auto
    next
      case False
      then have "c \<in> set (filter (free_of x) es')" using 1(2) Cons by auto
      then have "c \<in> set ?rest \<or> (\<exists>a \<in> set ?rest. \<not> free_of a c)"
        using 1(1) len by blast
      then show ?thesis using res by auto
    qed
  qed
qed

lemma unused_index:
  assumes "distinct (map f es)" "\<forall>e \<in> set es. f e < (n::nat)" "length es < n"
  shows "\<exists>i < n. i \<notin> f ` set es"
proof (rule ccontr)
  assume "\<not> (\<exists>i < n. i \<notin> f ` set es)"
  then have "{0..<n} \<subseteq> f ` set es" by auto
  then have "card {0..<n} \<le> card (f ` set es)" by (intro card_mono) simp_all
  moreover have "card (f ` set es) = length es"
    using assms(1) by (metis distinct_card length_map set_map)
  ultimately show False using assms(3) by simp
qed

lemma length_le_bound:
  assumes "distinct (map f es)" "\<forall>e \<in> set es. f e < (n::nat)"
  shows "length es \<le> n"
proof -
  have "f ` set es \<subseteq> {0..<n}" using assms(2) by auto
  then have "card (f ` set es) \<le> card {0..<n}" by (intro card_mono) simp_all
  moreover have "card (f ` set es) = length es"
    using assms(1) by (metis distinct_card length_map set_map)
  ultimately show ?thesis by simp
qed

lemma length_greedy_matching:
  assumes v: "valid_array a" and srt: "is_argsort (data a) (argsort (data a))"
  shows "length (greedy_matching argsort a) = min (nrows a) (ncols a)"
proof -
  let ?g = "greedy_matching argsort a"
  have d: "distinct (map fst ?g)" "distinct (map snd ?g)"
    by (rule greedy_matching_distinct)+
  have r: "\<forall>e \<in> set ?g. fst e < nrows a" "\<forall>e \<in> set ?g. snd e < ncols a"
    using greedy_matching_in_range [where argsort = argsort, OF v srt] by auto
  have le: "length ?g \<le> min (nrows a) (ncols a)"
    using length_le_bound [OF d(1) r(1)] length_le_bound [OF d(2) r(2)] by simp
  have "\<not> length ?g < min (nrows a) (ncols a)"
  proof
    assume lt: "length ?g < min (nrows a) (ncols a)"
    obtain i where i: "i < nrows a" "i \<notin> fst ` set ?g"
      using unused_index [OF d(1) r(1)] lt by auto
    obtain j where j: "j < ncols a" "j \<notin> snd ` set ?g"
      using unused_index [OF d(2) r(2)] lt by auto
    have "(i, j) \<in> set (sorted_edges argsort a)"
      using i(1) j(1) set_sorted_edges [where argsort = argsort, OF v srt]
      by (simp add: set_cells)
    then have "(i, j) \<in> set ?g \<or> (\<exists>e \<in> set ?g. \<not> free_of e (i, j))"
      unfolding greedy_matching_def by (rule greedy_loop_maximal)
    then show False using i(2) j(2) by (force simp: free_of_def)
  qed
  with le show ?thesis by linarith
qed

lemma is_assignment_set:
  "is_assignment a es \<longleftrightarrow>
     distinct es \<and> inj_on fst (set es) \<and> inj_on snd (set es) \<and> length es = min (nrows a) (ncols a)"
  by (auto simp: is_assignment_def distinct_map)

lemma total_cost_set: "distinct es \<Longrightarrow> total_cost a es = sum (\<lambda>e. real_of (cell a e)) (set es)"
  by (simp add: total_cost_def sum_list_distinct_conv_sum_set)

lemma row_major_copy:
  assumes "distinct es" "set es \<subseteq> set (cells a)"
  shows "\<exists>es' \<in> set (subseqs (cells a)). set es' = set es \<and> distinct es' \<and> length es' = length es"
proof -
  have "set es \<in> Pow (set (cells a))" using assms(2) by simp
  then have "set es \<in> set ` set (subseqs (cells a))" by (simp only: subseqs_powset)
  then obtain es' where es': "es' \<in> set (subseqs (cells a))" "set es' = set es" by auto
  have d: "distinct es'" using es'(1) distinct_cells by (rule subseqs_distinctD)
  have "length es' = card (set es')" using d by (simp add: distinct_card)
  also have "\<dots> = length es" using es'(2) assms(1) by (simp add: distinct_card)
  finally show ?thesis using es' d by blast
qed

lemma arg_min_list_le:
  assumes "x \<in> set xs"
  shows "f (arg_min_list f xs) \<le> (f x :: real)"
proof -
  have ne: "xs \<noteq> []" using assms by auto
  have "f (arg_min_list f xs) = Min (f ` set xs)" using ne by (rule f_arg_min_list_f)
  also have "\<dots> \<le> f x" using assms by simp
  finally show ?thesis .
qed

lemma optimal_le_assignment:
  assumes fin: "list_all is_finite (data a)"
    and asg: "is_assignment a es" and rng: "set es \<subseteq> set (cells a)"
  shows "\<exists>r c. linear_sum_assignment a = Inr (r, c) \<and> total_cost a (zip r c) \<le> total_cost a es"
proof -
  let ?cands = "filter (is_assignment a) (subseqs (cells a))"
  let ?best = "arg_min_list (total_cost a) ?cands"
  have d: "distinct es" using asg by (simp add: is_assignment_set)
  obtain es' where es': "es' \<in> set (subseqs (cells a))" "set es' = set es" "distinct es'"
      "length es' = length es"
    using row_major_copy [OF d rng] by blast
  have "is_assignment a es'" using asg es'(2,3,4) by (simp add: is_assignment_set)
  then have mem: "es' \<in> set ?cands" using es'(1) by simp
  have "total_cost a ?best \<le> total_cost a es'" using mem by (rule arg_min_list_le)
  also have "\<dots> = total_cost a es" using d es'(2,3) by (simp add: total_cost_set)
  finally have le: "total_cost a ?best \<le> total_cost a es" .
  have "linear_sum_assignment a = Inr (map fst ?best, map snd ?best)"
    using fin by (simp add: linear_sum_assignment_def Let_def)
  moreover have "zip (map fst ?best) (map snd ?best) = ?best" by (simp add: zip_map_fst_snd)
  ultimately show ?thesis using le by simp
qed

lemma assign_masked_isinf:
  "assign_masked a (map isinf (data a)) (Fin 0) = replace_inf_by_zero a"
proof -
  have "map2 (\<lambda>x b. if b then Fin 0 else x) xs (map isinf xs) =
        map (\<lambda>x. if isinf x then Fin 0 else x) xs" for xs
    by (induction xs) simp_all
  then show ?thesis by (simp add: assign_masked_def replace_inf_by_zero_def)
qed

lemma replace_inf_by_zero_finite:
  "list_all is_finite (data a) \<Longrightarrow> replace_inf_by_zero a = a"
proof -
  assume fin: "list_all is_finite (data a)"
  have "list_all is_finite xs \<Longrightarrow> map (\<lambda>x. if isinf x then Fin 0 else x) xs = xs" for xs
  proof (induction xs)
    case Nil
    then show ?case by simp
  next
    case (Cons x xs)
    then show ?case by (cases x) simp_all
  qed
  then show ?thesis using fin by (simp add: replace_inf_by_zero_def)
qed

lemma replace_inf_by_zero_no_inf:
  "list_all (\<lambda>x. \<not> isinf x) (data (replace_inf_by_zero a))"
  by (auto simp: replace_inf_by_zero_def list_all_iff)

lemma replace_inf_by_zero_same_iff:
  "replace_inf_by_zero a = a \<longleftrightarrow> list_all (\<lambda>x. \<not> isinf x) (data a)"
proof -
  have "map (\<lambda>x. if isinf x then Fin 0 else x) xs = xs \<longleftrightarrow> list_all (\<lambda>x. \<not> isinf x) xs" for xs
  proof (induction xs)
    case Nil
    then show ?case by simp
  next
    case (Cons x xs)
    then show ?case by (cases x) auto
  qed
  moreover have "replace_inf_by_zero a = a \<longleftrightarrow>
      map (\<lambda>x. if isinf x then Fin 0 else x) (data a) = data a"
    by (cases a) (simp add: replace_inf_by_zero_def)
  ultimately show ?thesis by simp
qed

lemma hungarian_matching_store:
  "snd (hungarian_matching p h) = h(p := replace_inf_by_zero (h p))"
  by (simp add: hungarian_matching_def assign_masked_isinf Let_def split: sum.split prod.split)

definition inf_column :: ndarray where
  "inf_column = \<lparr>nrows = 2, ncols = 2, data = [PosInf, Fin (- 1), PosInf, Fin (- 2)]\<rparr>"

definition greedy_worse :: ndarray where
  "greedy_worse = \<lparr>nrows = 2, ncols = 2, data = [Fin 1, Fin 2, Fin 3, Fin 10]\<rparr>"

text \<open>
  An edge of cost \<open>inf\<close> is chosen by the optimal solver: in \<open>[[inf, -1], [inf, -2]]\<close> both
  rows are matched, row 0 to the column where its cost was \<open>inf\<close>.
\<close>

lemma hungarian_matching_selects_inf_edge:
  "fst (hungarian_matching 0 (\<lambda>_. inf_column)) = Inr [(0, 0), (1, 1)] \<and>
   cell inf_column (0, 0) = PosInf"
  by code_simp

lemma hungarian_beats_greedy_example:
  "fst (hungarian_matching 0 (\<lambda>_. greedy_worse)) = Inr [(0, 1), (1, 0)] \<and>
   total_cost greedy_worse [(0, 1), (1, 0)] = 5 \<and>
   greedy_matching numpy_argsort greedy_worse = [(0, 0), (1, 1)] \<and>
   total_cost greedy_worse [(0, 0), (1, 1)] = 11"
  by code_simp

text \<open>
  Claim C6: the optimal solver replaces every \<open>inf\<close> entry of the cost matrix with \<open>0\<close>
  before the linear assignment is solved: what it returns is the assignment of the matrix
  with every \<open>inf\<close> replaced by \<open>0\<close>, a matrix without \<open>inf\<close>, so such an edge takes
  part at cost \<open>0\<close> and is not excluded.
\<close>

theorem hungarian_matching_solves_inf_as_zero:
  "fst (hungarian_matching p h) =
     (case linear_sum_assignment (replace_inf_by_zero (h p)) of
        Inl e \<Rightarrow> Inl e
      | Inr (row_ind, col_ind) \<Rightarrow> Inr (zip row_ind col_ind)) \<and>
   list_all (\<lambda>x. \<not> isinf x) (data (replace_inf_by_zero (h p)))"
  by (simp add: hungarian_matching_def assign_masked_isinf replace_inf_by_zero_no_inf Let_def
      split: sum.split prod.split)

text \<open>
  Claim C10: the optimal solver writes into its argument: after the call the caller's
  array, at the address passed, has \<open>0\<close> at every entry that was \<open>inf\<close> and its other
  entries as before, every other array of the store is untouched, and the caller's array
  is as it was exactly when it had no \<open>inf\<close> entry.
\<close>

theorem hungarian_matching_mutates_argument:
  "snd (hungarian_matching p h) = h(p := replace_inf_by_zero (h p)) \<and>
   (snd (hungarian_matching p h) p = h p \<longleftrightarrow> list_all (\<lambda>x. \<not> isinf x) (data (h p)))"
  by (simp add: hungarian_matching_store replace_inf_by_zero_same_iff)

text \<open>
  Claim C3: for every cost matrix all of whose entries are finite, the optimal solver
  returns an assignment, and its total cost is at most the total cost of the edges the
  greedy solver selects on the same matrix (whatever order \<open>np.argsort\<close> returns).
\<close>

theorem hungarian_total_le_greedy_total:
  assumes "is_argsort (data (h p)) (argsort (data (h p)))"
    and "valid_array (h p)" and "list_all is_finite (data (h p))"
  shows "\<exists>es. fst (hungarian_matching p h) = Inr es \<and>
           total_cost (h p) es \<le> total_cost (h p) (greedy_matching argsort (h p))"
proof -
  let ?a = "h p"
  let ?g = "greedy_matching argsort ?a"
  have "is_assignment ?a ?g"
    using greedy_matching_distinct
      length_greedy_matching [where argsort = argsort, OF assms(2) assms(1)]
    by (simp add: is_assignment_def)
  moreover have "set ?g \<subseteq> set (cells ?a)"
    using greedy_matching_in_range [where argsort = argsort, OF assms(2) assms(1)]
    by (auto simp: set_cells)
  ultimately obtain r c where rc: "linear_sum_assignment ?a = Inr (r, c)"
      "total_cost ?a (zip r c) \<le> total_cost ?a ?g"
    using optimal_le_assignment [OF assms(3)] by blast
  have "fst (hungarian_matching p h) = Inr (zip r c)"
    using rc(1) assms(3)
    by (simp add: hungarian_matching_def assign_masked_isinf replace_inf_by_zero_finite)
  then show ?thesis using rc(2) by blast
qed

theorem hungarian_total_le_greedy_total_witness:
  "is_argsort (data greedy_worse) (numpy_argsort (data greedy_worse)) \<and>
   valid_array greedy_worse \<and> list_all is_finite (data greedy_worse) \<and>
   (\<exists>es. fst (hungarian_matching 0 (\<lambda>_. greedy_worse)) = Inr es \<and>
      total_cost greedy_worse es
        \<le> total_cost greedy_worse (greedy_matching numpy_argsort greedy_worse))"
proof -
  have s: "is_argsort (data ((\<lambda>_. greedy_worse) (0::nat)))
             (numpy_argsort (data ((\<lambda>_. greedy_worse) (0::nat))))"
    by code_simp
  have v: "valid_array ((\<lambda>_. greedy_worse) (0::nat))"
    by (simp add: valid_array_def greedy_worse_def)
  have f: "list_all is_finite (data ((\<lambda>_. greedy_worse) (0::nat)))"
    by (simp add: greedy_worse_def)
  show ?thesis
    using s v f
      hungarian_total_le_greedy_total
        [where argsort = numpy_argsort and h = "\<lambda>_. greedy_worse" and p = 0, OF s v f]
    by simp
qed

section \<open>Similarity scorers with a cache\<close>

text \<open>
  A scorer sees an instance object through its identity and through the centroid and the
  bounding box it has when they are read. The identity is the dictionary key:
  \<open>ShiftedInstance\<close> is declared with \<open>eq=False\<close>, so it hashes and compares by
  identity, and \<open>Instance\<close>, defined outside the sources, is taken to do the same.
\<close>

record ('c, 'b) instance_view =
  ident :: nat
  centroid :: 'c
  bounding_box :: 'b

text \<open>The negation of a double.\<close>

fun negate :: "npfloat \<Rightarrow> npfloat" where
  "negate NegInf = PosInf"
| "negate (Fin r) = Fin (- r)"
| "negate PosInf = NegInf"
| "negate NaN = NaN"

text \<open>
  \<open>centroid_distance(ref_instance, query_instance, cache)\<close>: an instance that is not in
  the cache is entered with its centroid, then both centroids are read from the cache
  (a read of a missing key raises \<open>KeyError\<close>). The norm of the difference is NumPy's and
  is a parameter. The function returns the dictionary as it leaves it.
\<close>

definition centroid_distance ::
  "('c \<Rightarrow> 'c \<Rightarrow> npfloat) \<Rightarrow> ('c, 'b) instance_view \<Rightarrow> ('c, 'b) instance_view \<Rightarrow>
   (nat \<Rightarrow> 'c option) \<Rightarrow> (error + npfloat) \<times> (nat \<Rightarrow> 'c option)" where
  "centroid_distance norm_of_difference ref_instance query_instance cache =
     (let cache1 = (if cache (ident ref_instance) = None
                    then cache(ident ref_instance \<mapsto> centroid ref_instance) else cache);
          cache2 = (if cache1 (ident query_instance) = None
                    then cache1(ident query_instance \<mapsto> centroid query_instance) else cache1)
      in (case cache2 (ident ref_instance) of
            None \<Rightarrow> (Inl KeyError, cache2)
          | Some a \<Rightarrow>
              (case cache2 (ident query_instance) of
                 None \<Rightarrow> (Inl KeyError, cache2)
               | Some b \<Rightarrow> (Inr (negate (norm_of_difference a b)), cache2))))"

text \<open>\<open>instance_iou\<close>, the same with bounding boxes; \<open>utils.compute_iou\<close> is a parameter.\<close>

definition instance_iou ::
  "('b \<Rightarrow> 'b \<Rightarrow> npfloat) \<Rightarrow> ('c, 'b) instance_view \<Rightarrow> ('c, 'b) instance_view \<Rightarrow>
   (nat \<Rightarrow> 'b option) \<Rightarrow> (error + npfloat) \<times> (nat \<Rightarrow> 'b option)" where
  "instance_iou compute_iou ref_instance query_instance cache =
     (let cache1 = (if cache (ident ref_instance) = None
                    then cache(ident ref_instance \<mapsto> bounding_box ref_instance) else cache);
          cache2 = (if cache1 (ident query_instance) = None
                    then cache1(ident query_instance \<mapsto> bounding_box query_instance)
                    else cache1)
      in (case cache2 (ident ref_instance) of
            None \<Rightarrow> (Inl KeyError, cache2)
          | Some a \<Rightarrow>
              (case cache2 (ident query_instance) of
                 None \<Rightarrow> (Inl KeyError, cache2)
               | Some b \<Rightarrow> (Inr (compute_iou a b), cache2))))"

text \<open>
  The default value \<open>cache: dict = dict()\<close> of each scorer is evaluated once, when the
  function is defined, so the two dictionaries are state of the module. The tracker calls
  its similarity function with two arguments, so the scorer works on that dictionary.
\<close>

record ('c, 'b) scorer_defaults =
  centroid_distance_cache :: "nat \<Rightarrow> 'c option"
  instance_iou_cache :: "nat \<Rightarrow> 'b option"

definition call_centroid_distance ::
  "('c \<Rightarrow> 'c \<Rightarrow> npfloat) \<Rightarrow> ('c, 'b) instance_view \<Rightarrow> ('c, 'b) instance_view \<Rightarrow>
   ('c, 'b) scorer_defaults \<Rightarrow> (error + npfloat) \<times> ('c, 'b) scorer_defaults" where
  "call_centroid_distance norm_of_difference ref_instance query_instance st =
     (case centroid_distance norm_of_difference ref_instance query_instance
             (centroid_distance_cache st) of
        (score, cache') \<Rightarrow> (score, st\<lparr>centroid_distance_cache := cache'\<rparr>))"

definition call_instance_iou ::
  "('b \<Rightarrow> 'b \<Rightarrow> npfloat) \<Rightarrow> ('c, 'b) instance_view \<Rightarrow> ('c, 'b) instance_view \<Rightarrow>
   ('c, 'b) scorer_defaults \<Rightarrow> (error + npfloat) \<times> ('c, 'b) scorer_defaults" where
  "call_instance_iou compute_iou ref_instance query_instance st =
     (case instance_iou compute_iou ref_instance query_instance (instance_iou_cache st) of
        (score, cache') \<Rightarrow> (score, st\<lparr>instance_iou_cache := cache'\<rparr>))"

lemma centroid_distance_cache_grows:
  "cache \<subseteq>\<^sub>m snd (centroid_distance nd r q cache) \<and>
   dom (snd (centroid_distance nd r q cache)) = insert (ident q) (insert (ident r) (dom cache))"
  by (auto simp: centroid_distance_def Let_def map_le_def split: option.splits)

lemma instance_iou_cache_grows:
  "cache \<subseteq>\<^sub>m snd (instance_iou ci r q cache) \<and>
   dom (snd (instance_iou ci r q cache)) = insert (ident q) (insert (ident r) (dom cache))"
  by (auto simp: instance_iou_def Let_def map_le_def split: option.splits)

lemma centroid_distance_hit:
  "cache (ident r) = Some a \<Longrightarrow> cache (ident q) = Some b \<Longrightarrow>
   fst (centroid_distance nd r q cache) = Inr (negate (nd a b))"
  by (auto simp: centroid_distance_def Let_def)

lemma centroid_distance_returns: "\<exists>s. fst (centroid_distance nd r q cache) = Inr s"
  by (auto simp: centroid_distance_def Let_def split: option.splits)

lemma instance_iou_returns: "\<exists>s. fst (instance_iou ci r q cache) = Inr s"
  by (auto simp: instance_iou_def Let_def split: option.splits)

lemma instance_iou_hit:
  "cache (ident r) = Some a \<Longrightarrow> cache (ident q) = Some b \<Longrightarrow>
   fst (instance_iou ci r q cache) = Inr (ci a b)"
  by (auto simp: instance_iou_def Let_def)

lemma centroid_distance_score:
  "fst (centroid_distance nd r q cache) =
     Inr (negate (nd (case cache (ident r) of None \<Rightarrow> centroid r | Some a \<Rightarrow> a)
                     (case cache (ident q) of
                        None \<Rightarrow> if ident q = ident r then centroid r else centroid q
                      | Some b \<Rightarrow> b)))"
  by (auto simp: centroid_distance_def Let_def split: option.splits)

lemma centroid_distance_entries:
  "snd (centroid_distance nd r q cache) (ident r) =
     Some (case cache (ident r) of None \<Rightarrow> centroid r | Some a \<Rightarrow> a) \<and>
   snd (centroid_distance nd r q cache) (ident q) =
     Some (case cache (ident q) of
             None \<Rightarrow> if ident q = ident r then centroid r else centroid q
           | Some b \<Rightarrow> b)"
  by (auto simp: centroid_distance_def Let_def split: option.splits)

lemma instance_iou_score:
  "fst (instance_iou ci r q cache) =
     Inr (ci (case cache (ident r) of None \<Rightarrow> bounding_box r | Some a \<Rightarrow> a)
             (case cache (ident q) of
                None \<Rightarrow> if ident q = ident r then bounding_box r else bounding_box q
              | Some b \<Rightarrow> b))"
  by (auto simp: instance_iou_def Let_def split: option.splits)

lemma instance_iou_entries:
  "snd (instance_iou ci r q cache) (ident r) =
     Some (case cache (ident r) of None \<Rightarrow> bounding_box r | Some a \<Rightarrow> a) \<and>
   snd (instance_iou ci r q cache) (ident q) =
     Some (case cache (ident q) of
             None \<Rightarrow> if ident q = ident r then bounding_box r else bounding_box q
           | Some b \<Rightarrow> b)"
  by (auto simp: instance_iou_def Let_def split: option.splits)

text \<open>
  Instances on a line, for the examples: the centroid is a number and the norm is the
  distance.
\<close>

definition distance_1d :: "real \<Rightarrow> real \<Rightarrow> npfloat" where
  "distance_1d a b = Fin \<bar>a - b\<bar>"

definition seen_at :: "nat \<Rightarrow> real \<Rightarrow> (real, unit) instance_view" where
  "seen_at k x = \<lparr>ident = k, centroid = x, bounding_box = ()\<rparr>"

definition fresh_module :: "(real, unit) scorer_defaults" where
  "fresh_module = \<lparr>centroid_distance_cache = Map.empty, instance_iou_cache = Map.empty\<rparr>"

definition after_first_step :: "(real, unit) scorer_defaults" where
  "after_first_step = snd (call_centroid_distance distance_1d (seen_at 1 0) (seen_at 2 3) fresh_module)"

text \<open>
  Claim C9, as stated (a cached entry of one tracking step is never visible to a later
  call), fails. A first call, on a module just loaded, caches the centroid \<open>0\<close> of
  instance 1; when a later call scores the same instance, which has moved to \<open>10\<close>,
  against instance 2 at \<open>3\<close>, the score is \<open>-3\<close>, taken from the cached centroid;
  with an empty cache it is \<open>-7\<close>.
\<close>

theorem scorer_cache_outlives_step:
  "centroid_distance_cache after_first_step 1 = Some 0 \<and>
   fst (call_centroid_distance distance_1d (seen_at 1 10) (seen_at 2 3) after_first_step) =
     Inr (Fin (- 3)) \<and>
   fst (call_centroid_distance distance_1d (seen_at 1 10) (seen_at 2 3) fresh_module) =
     Inr (Fin (- 7))"
  by (simp add: after_first_step_def call_centroid_distance_def centroid_distance_def
      distance_1d_def seen_at_def fresh_module_def)

text \<open>
  Claim C9, amended: the caches of the centroid-distance and IoU scorers are the default
  dictionaries of the two functions, shared by every call that passes no cache, from any
  step and any tracker. A call keeps every entry it finds, adds each of the two instances
  it is given that is not cached yet, with the centroid or bounding box it has at that
  call, and leaves the other scorer's cache alone. It scores every instance from its
  cache entry: an instance cached by an earlier call from the centroid or bounding box
  cached then, whether the other instance was cached or not, and a new instance from
  its present one.
\<close>

theorem scorer_caches_persist:
  "centroid_distance_cache st \<subseteq>\<^sub>m
     centroid_distance_cache (snd (call_centroid_distance nd r q st)) \<and>
   dom (centroid_distance_cache (snd (call_centroid_distance nd r q st))) =
     insert (ident q) (insert (ident r) (dom (centroid_distance_cache st))) \<and>
   (\<forall>a b. centroid_distance_cache st (ident r) = Some a \<and>
           centroid_distance_cache st (ident q) = Some b \<longrightarrow>
           fst (call_centroid_distance nd r q st) = Inr (negate (nd a b))) \<and>
   instance_iou_cache st \<subseteq>\<^sub>m instance_iou_cache (snd (call_instance_iou ci r q st)) \<and>
   dom (instance_iou_cache (snd (call_instance_iou ci r q st))) =
     insert (ident q) (insert (ident r) (dom (instance_iou_cache st))) \<and>
   (\<forall>a b. instance_iou_cache st (ident r) = Some a \<and>
           instance_iou_cache st (ident q) = Some b \<longrightarrow>
           fst (call_instance_iou ci r q st) = Inr (ci a b)) \<and>
   fst (call_centroid_distance nd r q st) =
     Inr (negate (nd (case centroid_distance_cache st (ident r) of
                        None \<Rightarrow> centroid r | Some a \<Rightarrow> a)
                     (case centroid_distance_cache st (ident q) of
                        None \<Rightarrow> if ident q = ident r then centroid r else centroid q
                      | Some b \<Rightarrow> b))) \<and>
   centroid_distance_cache (snd (call_centroid_distance nd r q st)) (ident r) =
     Some (case centroid_distance_cache st (ident r) of None \<Rightarrow> centroid r | Some a \<Rightarrow> a) \<and>
   centroid_distance_cache (snd (call_centroid_distance nd r q st)) (ident q) =
     Some (case centroid_distance_cache st (ident q) of
             None \<Rightarrow> if ident q = ident r then centroid r else centroid q
           | Some b \<Rightarrow> b) \<and>
   instance_iou_cache (snd (call_centroid_distance nd r q st)) = instance_iou_cache st \<and>
   fst (call_instance_iou ci r q st) =
     Inr (ci (case instance_iou_cache st (ident r) of
                None \<Rightarrow> bounding_box r | Some a \<Rightarrow> a)
             (case instance_iou_cache st (ident q) of
                None \<Rightarrow> if ident q = ident r then bounding_box r else bounding_box q
              | Some b \<Rightarrow> b)) \<and>
   instance_iou_cache (snd (call_instance_iou ci r q st)) (ident r) =
     Some (case instance_iou_cache st (ident r) of None \<Rightarrow> bounding_box r | Some a \<Rightarrow> a) \<and>
   instance_iou_cache (snd (call_instance_iou ci r q st)) (ident q) =
     Some (case instance_iou_cache st (ident q) of
             None \<Rightarrow> if ident q = ident r then bounding_box r else bounding_box q
           | Some b \<Rightarrow> b) \<and>
   centroid_distance_cache (snd (call_instance_iou ci r q st)) = centroid_distance_cache st"
proof -
  have c: "centroid_distance_cache (snd (call_centroid_distance nd r q st)) =
           snd (centroid_distance nd r q (centroid_distance_cache st))"
    and cf: "fst (call_centroid_distance nd r q st) =
           fst (centroid_distance nd r q (centroid_distance_cache st))"
    and co: "instance_iou_cache (snd (call_centroid_distance nd r q st)) = instance_iou_cache st"
    by (simp_all add: call_centroid_distance_def split: prod.split)
  have i: "instance_iou_cache (snd (call_instance_iou ci r q st)) =
           snd (instance_iou ci r q (instance_iou_cache st))"
    and "if": "fst (call_instance_iou ci r q st) =
           fst (instance_iou ci r q (instance_iou_cache st))"
    and io: "centroid_distance_cache (snd (call_instance_iou ci r q st)) =
           centroid_distance_cache st"
    by (simp_all add: call_instance_iou_def split: prod.split)
  have old: "centroid_distance_cache st \<subseteq>\<^sub>m
       snd (centroid_distance nd r q (centroid_distance_cache st)) \<and>
     dom (snd (centroid_distance nd r q (centroid_distance_cache st))) =
       insert (ident q) (insert (ident r) (dom (centroid_distance_cache st))) \<and>
     (\<forall>a b. centroid_distance_cache st (ident r) = Some a \<and>
             centroid_distance_cache st (ident q) = Some b \<longrightarrow>
             fst (centroid_distance nd r q (centroid_distance_cache st)) =
               Inr (negate (nd a b))) \<and>
     instance_iou_cache st \<subseteq>\<^sub>m snd (instance_iou ci r q (instance_iou_cache st)) \<and>
     dom (snd (instance_iou ci r q (instance_iou_cache st))) =
       insert (ident q) (insert (ident r) (dom (instance_iou_cache st))) \<and>
     (\<forall>a b. instance_iou_cache st (ident r) = Some a \<and>
             instance_iou_cache st (ident q) = Some b \<longrightarrow>
             fst (instance_iou ci r q (instance_iou_cache st)) = Inr (ci a b))"
    using centroid_distance_cache_grows [of "centroid_distance_cache st" nd r q]
      instance_iou_cache_grows [of "instance_iou_cache st" ci r q]
    by (auto simp: centroid_distance_hit instance_iou_hit)
  show ?thesis
    unfolding c cf i "if" co io
    using old centroid_distance_score [of nd r q "centroid_distance_cache st"]
      centroid_distance_entries [of nd r q "centroid_distance_cache st"]
      instance_iou_score [of ci r q "instance_iou_cache st"]
      instance_iou_entries [of ci r q "instance_iou_cache st"]
    by simp
qed

definition box_overlap :: "real \<times> real \<Rightarrow> real \<times> real \<Rightarrow> npfloat" where
  "box_overlap a b =
     Fin (max 0 (min (snd a) (snd b) - max (fst a) (fst b)) /
          (max (snd a) (snd b) - min (fst a) (fst b)))"

definition warm_module :: "(real, real \<times> real) scorer_defaults" where
  "warm_module = \<lparr>centroid_distance_cache = [1 \<mapsto> 0, 2 \<mapsto> 3],
                   instance_iou_cache = [1 \<mapsto> (0, 2), 2 \<mapsto> (1, 3)]\<rparr>"

definition moved :: "nat \<Rightarrow> real \<Rightarrow> (real, real \<times> real) instance_view" where
  "moved k x = \<lparr>ident = k, centroid = x, bounding_box = (x - 1, x + 1)\<rparr>"

theorem scorer_caches_persist_witness:
  "centroid_distance_cache warm_module (ident (moved 1 10)) = Some 0 \<and>
   centroid_distance_cache warm_module (ident (moved 2 20)) = Some 3 \<and>
   fst (call_centroid_distance distance_1d (moved 1 10) (moved 2 20) warm_module) =
     Inr (negate (distance_1d 0 3)) \<and>
   instance_iou_cache warm_module (ident (moved 1 10)) = Some (0, 2) \<and>
   instance_iou_cache warm_module (ident (moved 2 20)) = Some (1, 3) \<and>
   fst (call_instance_iou box_overlap (moved 1 10) (moved 2 20) warm_module) =
     Inr (box_overlap (0, 2) (1, 3)) \<and>
   centroid_distance_cache warm_module (ident (moved 3 10)) = None \<and>
   fst (call_centroid_distance distance_1d (moved 3 10) (moved 2 20) warm_module) =
     Inr (negate (distance_1d 10 3)) \<and>
   instance_iou_cache warm_module (ident (moved 3 10)) = None \<and>
   fst (call_instance_iou box_overlap (moved 3 10) (moved 2 20) warm_module) =
     Inr (box_overlap (9, 11) (1, 3))"
proof -
  have c: "centroid_distance_cache warm_module (ident (moved 1 10)) = Some 0"
    "centroid_distance_cache warm_module (ident (moved 2 20)) = Some 3"
    "centroid_distance_cache warm_module (ident (moved 3 10)) = None"
    by (simp_all add: warm_module_def moved_def)
  have i: "instance_iou_cache warm_module (ident (moved 1 10)) = Some (0, 2)"
    "instance_iou_cache warm_module (ident (moved 2 20)) = Some (1, 3)"
    "instance_iou_cache warm_module (ident (moved 3 10)) = None"
    by (simp_all add: warm_module_def moved_def)
  have m: "centroid (moved 3 10) = 10" "bounding_box (moved 3 10) = (9, 11)"
    "ident (moved 2 20) \<noteq> ident (moved 3 10)"
    by (simp_all add: moved_def)
  show ?thesis
    using c i m
      scorer_caches_persist [of warm_module distance_1d "moved 1 10" "moved 2 20" box_overlap]
      scorer_caches_persist [of warm_module distance_1d "moved 3 10" "moved 2 20" box_overlap]
    by simp
qed

section \<open>Tracks, instances and the tracking queue\<close>

text \<open>
  A \<open>Track\<close> is compared by identity in the source. The model compares its two
  attributes. The two agree on the tracks one tracker spawns, which differ in their
  names, since the name carries the number of tracks spawned before (lemma
  \<open>spawned_tracks_distinct\<close> below). They differ on a queue built by hand that holds two
  \<open>Track\<close> objects with the same attributes: the source keeps them apart, the model
  takes them for one track.
\<close>

record Track =
  spawned_on :: int
  name :: string

text \<open>
  \<open>Instance\<close> is defined outside the sources. The tracker reads its visible-keypoint count
  and its track and writes its track and its tracking score; the keypoints themselves,
  of type \<open>'p\<close>, are only handed to the similarity function.
\<close>

record 'p Instance =
  points_array :: 'p
  n_visible_points :: nat
  track :: "Track option"
  tracking_score :: npfloat

text \<open>
  \<open>ShiftedInstance\<close>; skeleton and frame are references to objects of other modules. The
  field names carry a prefix where they would clash with those of \<open>Instance\<close>.
\<close>

record 'p ShiftedInstance =
  shifted_points_array :: 'p
  skeleton :: "nat option"
  frame :: "nat option"
  shifted_track :: "Track option"
  shift_score :: npfloat

text \<open>
  A candidate is an instance stored in the queue (simple maker) or a shifted instance
  (flow maker); \<open>candidate_track\<close> reads its \<open>track\<close> attribute.
\<close>

datatype 'p candidate = Stored "'p Instance" | Shifted "'p ShiftedInstance"

fun candidate_track :: "'p candidate \<Rightarrow> Track option" where
  "candidate_track (Stored r) = track r"
| "candidate_track (Shifted s) = shifted_track s"

text \<open>\<open>MatchedInstance\<close>; its timestep \<open>t\<close> is the field \<open>item_t\<close>.\<close>

record ('p, 'im) MatchedInstance =
  item_t :: int
  instances_t :: "'p Instance list"
  img_t :: "'im option"

text \<open>
  \<open>collections.deque(maxlen=n)\<close>: appending to a full deque discards the element at the
  other end, so a deque of capacity \<open>0\<close> stays empty.
\<close>

record 'a deque =
  maxlen :: nat
  items :: "'a list"

definition deque_append :: "'a deque \<Rightarrow> 'a \<Rightarrow> 'a deque" where
  "deque_append d x =
     (let xs = items d @ [x]
      in d\<lparr>items := (if maxlen d < length xs then tl xs else xs)\<rparr>)"

text \<open>The decimal digits of a number, for the name \<open>f"track_{n}"\<close>.\<close>

definition digit_char :: "nat \<Rightarrow> char" where
  "digit_char n = ''0123456789'' ! n"

fun str_nat :: "nat \<Rightarrow> string" where
  "str_nat n = (if n < 10 then [digit_char n] else str_nat (n div 10) @ [digit_char (n mod 10)])"

declare str_nat.simps [simp del]

section \<open>Candidate makers\<close>

text \<open>
  \<open>FlowCandidateMaker.flow_shift_instances\<close> computes optical flow with OpenCV; it is a
  parameter of the model: from the reference instances, the two images and the four
  settings it gives the shifted instances, or raises.
\<close>

type_synonym ('p, 'im) flow_shift =
  "'p Instance list \<Rightarrow> 'im option \<Rightarrow> 'im option \<Rightarrow> int \<Rightarrow> real \<Rightarrow> int \<Rightarrow> int
     \<Rightarrow> error + 'p ShiftedInstance list"

text \<open>
  The two candidate makers. The fields of \<open>FlowCandidateMaker\<close> are \<open>min_points\<close>,
  \<open>img_scale\<close>, \<open>of_window_size\<close>, \<open>of_max_levels\<close>, \<open>save_shifted_instances\<close> and the
  dictionary \<open>shifted_instances\<close>, keyed by source and destination timestep; the field of
  \<open>SimpleCandidateMaker\<close> is \<open>min_points\<close>.
\<close>

datatype 'p candidate_maker =
    FlowCandidateMaker int real int int bool "int \<times> int \<Rightarrow> 'p ShiftedInstance list option"
  | SimpleCandidateMaker int

text \<open>
  \<open>FlowCandidateMaker.get_candidates\<close>: the loop over the queue, with the candidates
  gathered so far and the dictionary of saved shifts.
\<close>

fun flow_get_candidates ::
  "('p, 'im) flow_shift \<Rightarrow> int \<Rightarrow> real \<Rightarrow> int \<Rightarrow> int \<Rightarrow> bool \<Rightarrow>
   ('p, 'im) MatchedInstance list \<Rightarrow> int \<Rightarrow> 'im option \<Rightarrow> 'p ShiftedInstance list \<Rightarrow>
   (int \<times> int \<Rightarrow> 'p ShiftedInstance list option) \<Rightarrow>
   (error + 'p ShiftedInstance list) \<times> (int \<times> int \<Rightarrow> 'p ShiftedInstance list option)" where
  "flow_get_candidates fs min_points img_scale of_window_size of_max_levels save [] t img
     candidate_instances saved = (Inr candidate_instances, saved)"
| "flow_get_candidates fs min_points img_scale of_window_size of_max_levels save
     (matched_item # rest) t img candidate_instances saved =
     (if 0 < length (instances_t matched_item) then
        (case fs (instances_t matched_item) (img_t matched_item) img min_points img_scale
                 of_window_size of_max_levels of
           Inl e \<Rightarrow> (Inl e, saved)
         | Inr shifted \<Rightarrow>
             flow_get_candidates fs min_points img_scale of_window_size of_max_levels save
               rest t img (candidate_instances @ shifted)
               (if save then saved((item_t matched_item, t) \<mapsto> shifted) else saved))
      else flow_get_candidates fs min_points img_scale of_window_size of_max_levels save
             rest t img candidate_instances saved)"

text \<open>
  \<open>get_candidates\<close> of either maker; it returns the maker as the call leaves it. The simple
  maker takes every stored instance with at least \<open>min_points\<close> visible keypoints,
  queue entry by queue entry.
\<close>

fun get_candidates ::
  "('p, 'im) flow_shift \<Rightarrow> 'p candidate_maker \<Rightarrow> ('p, 'im) MatchedInstance deque \<Rightarrow> int \<Rightarrow>
   'im option \<Rightarrow> (error + 'p candidate list) \<times> 'p candidate_maker" where
  "get_candidates fs (SimpleCandidateMaker min_points) track_matching_queue t img =
     (Inr (map Stored (concat (map
        (\<lambda>matched_item. filter (\<lambda>ref_instance. min_points \<le> int (n_visible_points ref_instance))
           (instances_t matched_item))
        (items track_matching_queue)))),
      SimpleCandidateMaker min_points)"
| "get_candidates fs
     (FlowCandidateMaker min_points img_scale of_window_size of_max_levels save saved)
     track_matching_queue t img =
     (case flow_get_candidates fs min_points img_scale of_window_size of_max_levels save
             (items track_matching_queue) t img [] saved of
        (Inl e, saved') \<Rightarrow>
          (Inl e, FlowCandidateMaker min_points img_scale of_window_size of_max_levels save saved')
      | (Inr shifted, saved') \<Rightarrow>
          (Inr (map Shifted shifted),
           FlowCandidateMaker min_points img_scale of_window_size of_max_levels save saved'))"

section \<open>The tracker\<close>

text \<open>
  The similarity function of a tracker may keep state between calls (the scorers with a
  cache do): it takes the state \<open>'g\<close> of its module and returns it. The matching function
  takes the cost array and returns the edges, or raises.
\<close>

type_synonym ('p, 'g) similarity = "'p Instance \<Rightarrow> 'p candidate \<Rightarrow> 'g \<Rightarrow> npfloat \<times> 'g"

type_synonym matching = "ndarray \<Rightarrow> error + edge list"

text \<open>
  The two solvers as matching functions of a tracker, the greedy one with the default
  sort of NumPy. \<open>track\<close> hands the solver a freshly allocated cost array and does not
  read it after the call, so of the optimal solver only the result is kept.
\<close>

definition greedy_matching_function :: matching where
  "greedy_matching_function cost = Inr (greedy_matching numpy_argsort cost)"

definition hungarian_matching_function :: matching where
  "hungarian_matching_function cost = fst (hungarian_matching 0 (\<lambda>_. cost))"

record ('p, 'im, 'g) Tracker =
  track_window :: int
  similarity_function :: "('p, 'g) similarity"
  matching_function :: matching
  candidate_maker :: "'p candidate_maker"
  min_new_track_points :: int
  track_matching_queue :: "('p, 'im) MatchedInstance deque"
  spawned_tracks :: "Track list"
  save_tracked_instances :: bool
  tracked_instances :: "int \<Rightarrow> 'p Instance list option"

text \<open>
  The constructor with the default queue, \<open>deque(maxlen=self.track_window)\<close>, which raises
  \<open>ValueError\<close> for a negative capacity.
\<close>

definition new_Tracker ::
  "int \<Rightarrow> ('p, 'g) similarity \<Rightarrow> matching \<Rightarrow> 'p candidate_maker \<Rightarrow> int \<Rightarrow> bool \<Rightarrow>
   error + ('p, 'im, 'g) Tracker" where
  "new_Tracker window sim mf cm min_new save =
     (if window < 0 then Inl ValueError
      else Inr \<lparr>track_window = window, similarity_function = sim, matching_function = mf,
                candidate_maker = cm, min_new_track_points = min_new,
                track_matching_queue = \<lparr>maxlen = nat window, items = []\<rparr>,
                spawned_tracks = [], save_tracked_instances = save,
                tracked_instances = Map.empty\<rparr>)"

text \<open>
  \<open>candidate_instances_by_track[instance.track].append(instance)\<close> on a
  \<open>defaultdict(list)\<close>, whose keys keep the order of their first insertion. The keys are
  tracks, compared as said above: by their attributes here, by identity in the source.
\<close>

fun dict_append :: "('k \<times> 'v list) list \<Rightarrow> 'k \<Rightarrow> 'v \<Rightarrow> ('k \<times> 'v list) list" where
  "dict_append [] k v = [(k, [v])]"
| "dict_append ((k', vs) # rest) k v =
     (if k' = k then (k', vs @ [v]) # rest else (k', vs) # dict_append rest k v)"

fun group_by_track ::
  "'p candidate list \<Rightarrow> (Track option \<times> 'p candidate list) list \<Rightarrow>
   (Track option \<times> 'p candidate list) list" where
  "group_by_track [] candidate_instances_by_track = candidate_instances_by_track"
| "group_by_track (c # cs) candidate_instances_by_track =
     group_by_track cs (dict_append candidate_instances_by_track (candidate_track c) c)"

text \<open>
  \<open>np.argmax\<close> of a list of doubles: the first position of the greatest value, NaN
  counting as greatest; it raises on an empty list.
\<close>

fun argmax_loop :: "npfloat list \<Rightarrow> nat \<Rightarrow> nat \<Rightarrow> npfloat \<Rightarrow> nat" where
  "argmax_loop [] i best_ind best = best_ind"
| "argmax_loop (x # xs) i best_ind best =
     (if sort_rank best < sort_rank x then argmax_loop xs (Suc i) i x
      else argmax_loop xs (Suc i) best_ind best)"

fun argmax :: "npfloat list \<Rightarrow> error + nat" where
  "argmax [] = Inl ValueError"
| "argmax (x # xs) = Inr (argmax_loop xs 1 0 x)"

text \<open>
  The similarities of one detection to the candidates of one track (the list
  comprehension), of one detection to the best candidate of every track (the loop over
  \<open>j\<close>), and of every detection (the loop over \<open>i\<close>). The calls of the similarity function
  happen in this order, each from the state the one before left.
\<close>

fun track_similarities ::
  "('p, 'g) similarity \<Rightarrow> 'p Instance \<Rightarrow> 'p candidate list \<Rightarrow> 'g \<Rightarrow> npfloat list \<times> 'g" where
  "track_similarities sim untracked_instance [] g = ([], g)"
| "track_similarities sim untracked_instance (candidate_instance # rest) g =
     (case sim untracked_instance candidate_instance g of
        (s, g1) \<Rightarrow>
          (case track_similarities sim untracked_instance rest g1 of
             (ss, g2) \<Rightarrow> (s # ss, g2)))"

fun best_per_track ::
  "('p, 'g) similarity \<Rightarrow> 'p Instance \<Rightarrow> 'p candidate list list \<Rightarrow> 'g \<Rightarrow>
   (error + (npfloat \<times> 'p candidate) list) \<times> 'g" where
  "best_per_track sim untracked_instance [] g = (Inr [], g)"
| "best_per_track sim untracked_instance (track_instances # rest) g =
     (case track_similarities sim untracked_instance track_instances g of
        (track_matching_similarities, g1) \<Rightarrow>
          (case argmax track_matching_similarities of
             Inl e \<Rightarrow> (Inl e, g1)
           | Inr best_ind \<Rightarrow>
               (case best_per_track sim untracked_instance rest g1 of
                  (Inl e, g2) \<Rightarrow> (Inl e, g2)
                | (Inr row, g2) \<Rightarrow>
                    (Inr ((track_matching_similarities ! best_ind, track_instances ! best_ind)
                          # row), g2))))"

fun similarity_rows ::
  "('p, 'g) similarity \<Rightarrow> 'p Instance list \<Rightarrow> 'p candidate list list \<Rightarrow> 'g \<Rightarrow>
   (error + (npfloat \<times> 'p candidate) list list) \<times> 'g" where
  "similarity_rows sim [] groups g = (Inr [], g)"
| "similarity_rows sim (untracked_instance # rest) groups g =
     (case best_per_track sim untracked_instance groups g of
        (Inl e, g1) \<Rightarrow> (Inl e, g1)
      | (Inr row, g1) \<Rightarrow>
          (case similarity_rows sim rest groups g1 of
             (Inl e, g2) \<Rightarrow> (Inl e, g2)
           | (Inr rows, g2) \<Rightarrow> (Inr (row # rows), g2)))"

text \<open>\<open>cost = -matching_similarities\<close> and \<open>cost[np.isnan(cost)] = np.inf\<close>.\<close>

definition cost_of_similarities :: "ndarray \<Rightarrow> ndarray" where
  "cost_of_similarities matching_similarities =
     (let cost = matching_similarities\<lparr>data := map negate (data matching_similarities)\<rparr>
      in assign_masked cost (map isnan (data cost)) PosInf)"

text \<open>
  The body of \<open>if len(candidate_instances) > 0\<close> up to the call of the matching function:
  it gives the matches, \<open>matching_candidates\<close> and \<open>matching_similarities\<close>.
\<close>

definition compute_matches ::
  "('p, 'g) similarity \<Rightarrow> matching \<Rightarrow> 'p Instance list \<Rightarrow> 'p candidate list \<Rightarrow> 'g \<Rightarrow>
   (error + edge list \<times> 'p candidate list list \<times> ndarray) \<times> 'g" where
  "compute_matches sim mf untracked_instances candidate_instances g =
     (let candidate_instances_by_track = group_by_track candidate_instances [];
          candidate_tracks = map fst candidate_instances_by_track
      in (case similarity_rows sim untracked_instances (map snd candidate_instances_by_track) g of
            (Inl e, g') \<Rightarrow> (Inl e, g')
          | (Inr rows, g') \<Rightarrow>
              (let matching_similarities =
                     \<lparr>nrows = length untracked_instances, ncols = length candidate_tracks,
                      data = concat (map (map fst) rows)\<rparr>;
                   matching_candidates = map (map snd) rows
               in (case mf (cost_of_similarities matching_similarities) of
                     Inl e \<Rightarrow> (Inl e, g')
                   | Inr matches \<Rightarrow>
                       (Inr (matches, matching_candidates, matching_similarities), g')))))"

text \<open>
  The loop \<open>for i, j in matches\<close>, with \<open>tracked_instances\<close> and \<open>tracked_inds\<close> as they
  grow. An index outside a list or the array raises \<open>IndexError\<close>.
\<close>

fun assign_matches ::
  "'p Instance list \<Rightarrow> 'p candidate list list \<Rightarrow> ndarray \<Rightarrow> edge list \<Rightarrow>
   'p Instance list \<Rightarrow> nat list \<Rightarrow> error + 'p Instance list \<times> nat list" where
  "assign_matches untracked_instances matching_candidates matching_similarities []
     tracked tracked_inds = Inr (tracked, tracked_inds)"
| "assign_matches untracked_instances matching_candidates matching_similarities ((i, j) # rest)
     tracked tracked_inds =
     (if i < length untracked_instances \<and> i < length matching_candidates \<and>
         j < length (matching_candidates ! i) \<and>
         i < nrows matching_similarities \<and> j < ncols matching_similarities
      then assign_matches untracked_instances matching_candidates matching_similarities rest
             (tracked @ [(untracked_instances ! i)
                \<lparr>track := candidate_track (matching_candidates ! i ! j),
                 tracking_score := cell matching_similarities (i, j)\<rparr>])
             (tracked_inds @ [i])
      else Inl IndexError)"

text \<open>
  The loop that spawns a track for each remaining detection, over
  \<open>enumerate(untracked_instances)\<close>, with \<open>tracked_instances\<close> and \<open>self.spawned_tracks\<close>
  as they grow.
\<close>

definition spawn_track :: "int \<Rightarrow> nat \<Rightarrow> Track" where
  "spawn_track t n = \<lparr>spawned_on = t, name = ''track_'' @ str_nat n\<rparr>"

fun spawn_loop ::
  "int \<Rightarrow> int \<Rightarrow> nat list \<Rightarrow> (nat \<times> 'p Instance) list \<Rightarrow> 'p Instance list \<Rightarrow> Track list \<Rightarrow>
   'p Instance list \<times> Track list" where
  "spawn_loop t min_new tracked_inds [] tracked spawned = (tracked, spawned)"
| "spawn_loop t min_new tracked_inds ((i, inst) # rest) tracked spawned =
     (if i \<in> set tracked_inds then spawn_loop t min_new tracked_inds rest tracked spawned
      else if int (n_visible_points inst) < min_new
        then spawn_loop t min_new tracked_inds rest tracked spawned
      else (let new_track = spawn_track t (length spawned)
            in spawn_loop t min_new tracked_inds rest
                 (tracked @ [inst\<lparr>track := Some new_track\<rparr>]) (spawned @ [new_track])))"

text \<open>The timestep of a call: the argument, or one more than the last entry's, or \<open>0\<close>.\<close>

definition infer_t :: "('p, 'im, 'g) Tracker \<Rightarrow> int option \<Rightarrow> int" where
  "infer_t self t_arg =
     (case t_arg of
        Some t \<Rightarrow> t
      | None \<Rightarrow>
          (if 0 < length (items (track_matching_queue self))
           then item_t (last (items (track_matching_queue self))) + 1
           else 0))"

text \<open>
  The end of \<open>track\<close>, from the spawning loop on: the queue receives the entry for this
  timestep, the result is saved when the tracker is set to, and returned.
\<close>

definition finish_track ::
  "('p, 'im, 'g) Tracker \<Rightarrow> 'p Instance list \<Rightarrow> 'p Instance list \<Rightarrow> nat list \<Rightarrow>
   'im option \<Rightarrow> int \<Rightarrow> 'p Instance list \<times> ('p, 'im, 'g) Tracker" where
  "finish_track self untracked_instances tracked tracked_inds img t =
     (case spawn_loop t (min_new_track_points self) tracked_inds
             (enumerate 0 untracked_instances) tracked (spawned_tracks self) of
        (tracked', spawned') \<Rightarrow>
          (let self1 = self\<lparr>spawned_tracks := spawned',
                 track_matching_queue := deque_append (track_matching_queue self)
                   \<lparr>item_t = t, instances_t = tracked', img_t = img\<rparr>\<rparr>;
               self2 = (if save_tracked_instances self1
                        then self1\<lparr>tracked_instances := (tracked_instances self1)(t \<mapsto> tracked')\<rparr>
                        else self1)
           in (tracked', self2)))"

text \<open>
  \<open>Tracker.track\<close>. It returns the list of tracked instances or the exception raised,
  the tracker as the call leaves it and the state of the similarity function's module.
\<close>

definition Tracker_track ::
  "('p, 'im) flow_shift \<Rightarrow> ('p, 'im, 'g) Tracker \<Rightarrow> 'p Instance list \<Rightarrow> 'im option \<Rightarrow>
   int option \<Rightarrow> 'g \<Rightarrow> (error + 'p Instance list) \<times> ('p, 'im, 'g) Tracker \<times> 'g" where
  "Tracker_track fs self untracked_instances img t_arg g =
     (let t = infer_t self t_arg
      in if 0 < length untracked_instances then
           (case get_candidates fs (candidate_maker self) (track_matching_queue self) t img of
              (Inl e, cm') \<Rightarrow> (Inl e, self\<lparr>candidate_maker := cm'\<rparr>, g)
            | (Inr candidate_instances, cm') \<Rightarrow>
                (let self' = self\<lparr>candidate_maker := cm'\<rparr>
                 in if 0 < length candidate_instances then
                      (case compute_matches (similarity_function self) (matching_function self)
                              untracked_instances candidate_instances g of
                         (Inl e, g') \<Rightarrow> (Inl e, self', g')
                       | (Inr (matches, matching_candidates, matching_similarities), g') \<Rightarrow>
                           (case assign_matches untracked_instances matching_candidates
                                   matching_similarities matches [] [] of
                              Inl e \<Rightarrow> (Inl e, self', g')
                            | Inr (tracked, tracked_inds) \<Rightarrow>
                                (case finish_track self' untracked_instances tracked tracked_inds
                                        img t of
                                   (res, self'') \<Rightarrow> (Inr res, self'', g'))))
                    else (case finish_track self' untracked_instances [] [] img t of
                            (res, self'') \<Rightarrow> (Inr res, self'', g))))
         else (case finish_track self untracked_instances [] [] img t of
                 (res, self'') \<Rightarrow> (Inr res, self'', g)))"

text \<open>
  A run of calls on one tracker, each from the state the one before left (also when it
  raised); the third component lists the timesteps of the calls that returned.
\<close>

fun track_calls ::
  "('p, 'im) flow_shift \<Rightarrow> ('p, 'im, 'g) Tracker \<Rightarrow> 'g \<Rightarrow>
   ('p Instance list \<times> 'im option \<times> int option) list \<Rightarrow>
   ('p, 'im, 'g) Tracker \<times> 'g \<times> int list" where
  "track_calls fs self g [] = (self, g, [])"
| "track_calls fs self g ((untracked_instances, img, t_arg) # calls) =
     (case Tracker_track fs self untracked_instances img t_arg g of
        (Inl e, self', g') \<Rightarrow> track_calls fs self' g' calls
      | (Inr res, self', g') \<Rightarrow>
          (case track_calls fs self' g' calls of
             (self'', g'', ts) \<Rightarrow> (self'', g'', infer_t self t_arg # ts)))"

text \<open>
  The edges the matching solver returned in a call of \<open>track\<close> (none when the solver was
  not called), and the indices of the detections behind the list the call returns.
\<close>

definition solver_matches ::
  "('p, 'im) flow_shift \<Rightarrow> ('p, 'im, 'g) Tracker \<Rightarrow> 'p Instance list \<Rightarrow> 'im option \<Rightarrow>
   int option \<Rightarrow> 'g \<Rightarrow> edge list" where
  "solver_matches fs self untracked_instances img t_arg g =
     (if 0 < length untracked_instances then
        (case get_candidates fs (candidate_maker self) (track_matching_queue self)
                (infer_t self t_arg) img of
           (Inl e, cm') \<Rightarrow> []
         | (Inr candidate_instances, cm') \<Rightarrow>
             (if 0 < length candidate_instances then
                (case compute_matches (similarity_function self) (matching_function self)
                        untracked_instances candidate_instances g of
                   (Inl e, g') \<Rightarrow> []
                 | (Inr (matches, matching_candidates, matching_similarities), g') \<Rightarrow> matches)
              else []))
      else [])"

definition source_indices :: "edge list \<Rightarrow> int \<Rightarrow> 'p Instance list \<Rightarrow> nat list" where
  "source_indices matches min_new untracked_instances =
     map fst matches @
     filter (\<lambda>i. i \<notin> set (map fst matches) \<and>
                 min_new \<le> int (n_visible_points (untracked_instances ! i)))
       [0..<length untracked_instances]"

definition same_detection :: "'p Instance \<Rightarrow> 'p Instance \<Rightarrow> bool" where
  "same_detection r d \<longleftrightarrow> r\<lparr>track := track d, tracking_score := tracking_score d\<rparr> = d"

text \<open>The last \<open>n\<close> elements of a list: the \<open>n\<close> most recent of a history.\<close>

definition last_n :: "nat \<Rightarrow> 'a list \<Rightarrow> 'a list" where
  "last_n n xs = drop (length xs - n) xs"

section \<open>Properties of a tracking step\<close>

lemma assign_matches_closed:
  "assign_matches U MC S ms tracked inds = Inr (tr, inds') \<Longrightarrow>
   inds' = inds @ map fst ms \<and>
   (\<exists>new. tr = tracked @ new \<and>
      list_all2 (\<lambda>r i. i < length U \<and> same_detection r (U ! i)) new (map fst ms))"
proof (induction ms arbitrary: tracked inds)
  case Nil
  then show ?case by simp
next
  case (Cons m ms)
  obtain i j where m: "m = (i, j)" by (cases m)
  let ?new = "(U ! i)\<lparr>track := candidate_track (MC ! i ! j), tracking_score := cell S (i, j)\<rparr>"
  from Cons.prems m have ok: "i < length U"
    and rec: "assign_matches U MC S ms (tracked @ [?new]) (inds @ [i]) = Inr (tr, inds')"
    by (auto split: if_splits)
  from Cons.IH [OF rec] obtain new where ih: "inds' = (inds @ [i]) @ map fst ms"
    "tr = (tracked @ [?new]) @ new"
    "list_all2 (\<lambda>r i. i < length U \<and> same_detection r (U ! i)) new (map fst ms)"
    by blast
  have "same_detection ?new (U ! i)" by (simp add: same_detection_def)
  then have "list_all2 (\<lambda>r i. i < length U \<and> same_detection r (U ! i)) (?new # new) (map fst (m # ms))"
    using ih(3) ok m by simp
  moreover have "tr = tracked @ (?new # new)" using ih(2) by simp
  ultimately show ?case using ih(1) m by auto
qed

lemma spawn_loop_closed:
  "spawn_loop t mn inds ixs tracked spawned =
     (tracked @ map (\<lambda>(k, (i, x)). x\<lparr>track := Some (spawn_track t k)\<rparr>)
        (enumerate (length spawned)
           (filter (\<lambda>(i, x). i \<notin> set inds \<and> mn \<le> int (n_visible_points x)) ixs)),
      spawned @ map (\<lambda>(k, (i, x)). spawn_track t k)
        (enumerate (length spawned)
           (filter (\<lambda>(i, x). i \<notin> set inds \<and> mn \<le> int (n_visible_points x)) ixs)))"
proof (induction ixs arbitrary: tracked spawned)
  case Nil
  then show ?case by simp
next
  case (Cons a ixs)
  obtain i x where a: "a = (i, x)" by (cases a)
  show ?case
  proof (cases "i \<notin> set inds \<and> mn \<le> int (n_visible_points x)")
    case True
    then show ?thesis using a Cons.IH by (simp add: Let_def not_less)
  next
    case False
    then show ?thesis using a Cons.IH by (auto simp: not_less)
  qed
qed

lemma finish_track_result:
  "fst (finish_track self U tracked inds img t) =
     fst (spawn_loop t (min_new_track_points self) inds (enumerate 0 U) tracked (spawned_tracks self))"
  by (simp add: finish_track_def Let_def split: prod.split)

lemma finish_track_queue:
  "track_matching_queue (snd (finish_track self U tracked inds img t)) =
     deque_append (track_matching_queue self)
       \<lparr>item_t = t, instances_t = fst (finish_track self U tracked inds img t), img_t = img\<rparr>"
  by (simp add: finish_track_def Let_def split: prod.split)

lemma finish_track_fields:
  "track_window (snd (finish_track self U tracked inds img t)) = track_window self"
  "min_new_track_points (snd (finish_track self U tracked inds img t)) = min_new_track_points self"
  "candidate_maker (snd (finish_track self U tracked inds img t)) = candidate_maker self"
  by (simp_all add: finish_track_def Let_def split: prod.split)

lemma get_candidates_empty:
  "items q = [] \<Longrightarrow> get_candidates fs cm q t img = (Inr [], cm)"
  by (cases cm) simp_all

text \<open>What a call does to the queue and to the configuration.\<close>

lemma Tracker_track_queue:
  assumes "Tracker_track fs self U img t_arg g = (r, self', g')"
  shows "track_window self' = track_window self \<and>
         min_new_track_points self' = min_new_track_points self \<and>
         (case r of
            Inl e \<Rightarrow> track_matching_queue self' = track_matching_queue self
          | Inr res \<Rightarrow> track_matching_queue self' =
              deque_append (track_matching_queue self)
                \<lparr>item_t = infer_t self t_arg, instances_t = res, img_t = img\<rparr>)"
proof -
  let ?t = "infer_t self t_arg"
  have fin: ?thesis
    if a: "(case finish_track s U tr inds img ?t of (res, s'') \<Rightarrow> (Inr res, s'', g')) = (r, self', g')"
      and q: "track_matching_queue s = track_matching_queue self"
      and w: "track_window s = track_window self"
      and m: "min_new_track_points s = min_new_track_points self"
    for s :: "('a, 'b, 'c) Tracker" and tr inds
  proof -
    from a have r: "r = Inr (fst (finish_track s U tr inds img ?t))"
      and s: "self' = snd (finish_track s U tr inds img ?t)"
      by (auto split: prod.splits)
    show ?thesis
      unfolding r s using q w m by (simp add: finish_track_queue finish_track_fields)
  qed
  show ?thesis
  proof (cases "0 < length U")
    case False
    then have "(case finish_track self U [] [] img ?t of (res, s'') \<Rightarrow> (Inr res, s'', g)) = (r, self', g')"
      using assms by (simp add: Tracker_track_def Let_def)
    moreover from this have "g = g'" by (auto split: prod.splits)
    ultimately show ?thesis using fin [of self "[]" "[]"] by simp
  next
    case True
    obtain rc cm' where gc: "get_candidates fs (candidate_maker self) (track_matching_queue self) ?t img = (rc, cm')"
      by (cases "get_candidates fs (candidate_maker self) (track_matching_queue self) ?t img")
    let ?s = "self\<lparr>candidate_maker := cm'\<rparr>"
    show ?thesis
    proof (cases rc)
      case (Inl e)
      then show ?thesis using assms True gc by (auto simp: Tracker_track_def Let_def)
    next
      case (Inr cands)
      show ?thesis
      proof (cases "0 < length cands")
        case False
        then have "(case finish_track ?s U [] [] img ?t of (res, s'') \<Rightarrow> (Inr res, s'', g)) = (r, self', g')"
          using assms True gc Inr by (simp add: Tracker_track_def Let_def)
        moreover from this have "g = g'" by (auto split: prod.splits)
        ultimately show ?thesis using fin [of ?s "[]" "[]"] by simp
      next
        case c: True
        obtain rm gm where cmx: "compute_matches (similarity_function self) (matching_function self) U cands g = (rm, gm)"
          by (cases "compute_matches (similarity_function self) (matching_function self) U cands g")
        show ?thesis
        proof (cases rm)
          case (Inl e)
          then show ?thesis using assms True gc Inr c cmx by (auto simp: Tracker_track_def Let_def)
        next
          case rmr: (Inr trip)
          obtain ms MC S where trip: "trip = (ms, MC, S)" by (cases trip)
          show ?thesis
          proof (cases "assign_matches U MC S ms [] []")
            case (Inl e)
            then show ?thesis using assms True gc Inr c cmx rmr trip
              by (auto simp: Tracker_track_def Let_def)
          next
            case am: (Inr pr)
            obtain tr inds where pr: "pr = (tr, inds)" by (cases pr)
            have "(case finish_track ?s U tr inds img ?t of (res, s'') \<Rightarrow> (Inr res, s'', gm)) = (r, self', g')"
              using assms True gc Inr c cmx rmr trip am pr by (simp add: Tracker_track_def Let_def)
            moreover from this have "gm = g'" by (auto split: prod.splits)
            ultimately show ?thesis using fin [of ?s tr inds] by simp
          qed
        qed
      qed
    qed
  qed
qed

lemma deque_append_maxlen: "maxlen (deque_append d x) = maxlen d"
  by (simp add: deque_append_def Let_def)

lemma deque_append_items:
  "length (items d) \<le> maxlen d \<Longrightarrow> items (deque_append d x) = last_n (maxlen d) (items d @ [x])"
proof -
  assume le: "length (items d) \<le> maxlen d"
  show ?thesis
  proof (cases "maxlen d < length (items d @ [x])")
    case True
    then have "length (items d @ [x]) - maxlen d = 1" using le by simp
    then have "last_n (maxlen d) (items d @ [x]) = drop 1 (items d @ [x])"
      by (simp only: last_n_def)
    also have "\<dots> = tl (items d @ [x])" by (simp only: One_nat_def drop_Suc drop_0)
    finally show ?thesis using True by (simp add: deque_append_def Let_def)
  next
    case False
    then show ?thesis by (simp add: deque_append_def Let_def last_n_def)
  qed
qed

lemma length_last_n: "length (last_n n xs) = min n (length xs)"
  by (simp add: last_n_def)

lemma map_last_n: "map f (last_n n xs) = last_n n (map f xs)"
  by (simp add: last_n_def drop_map)

lemma last_n_append: "last_n n (last_n n xs @ ys) = last_n n (xs @ ys)"
proof (cases "length xs \<le> n")
  case True
  then show ?thesis by (simp add: last_n_def)
next
  case False
  then have lt: "n < length xs" by simp
  have "last_n n (last_n n xs @ ys) = drop (length ys) (drop (length xs - n) xs @ ys)"
    using lt by (simp add: last_n_def)
  also have "\<dots> = drop (length ys) (drop (length xs - n) (xs @ ys))"
    by simp
  also have "\<dots> = drop (length ys + (length xs - n)) (xs @ ys)"
    by (simp only: drop_drop)
  also have "length ys + (length xs - n) = length (xs @ ys) - n" using lt by simp
  finally show ?thesis by (simp only: last_n_def)
qed

lemma track_calls_queue:
  assumes "length (items (track_matching_queue self)) \<le> maxlen (track_matching_queue self)"
    and "track_calls fs self g calls = (self', g', ts)"
  shows "maxlen (track_matching_queue self') = maxlen (track_matching_queue self) \<and>
         track_window self' = track_window self \<and>
         min_new_track_points self' = min_new_track_points self \<and>
         map item_t (items (track_matching_queue self')) =
           last_n (maxlen (track_matching_queue self))
             (map item_t (items (track_matching_queue self)) @ ts)"
  using assms
proof (induction calls arbitrary: self g ts)
  case Nil
  then show ?case by (simp add: last_n_def)
next
  case (Cons c calls)
  obtain U img t_arg where c: "c = (U, img, t_arg)" by (cases c)
  obtain r s1 g1 where tr: "Tracker_track fs self U img t_arg g = (r, s1, g1)"
    by (cases "Tracker_track fs self U img t_arg g")
  let ?q = "track_matching_queue self"
  note eff = Tracker_track_queue [OF tr]
  show ?case
  proof (cases r)
    case (Inl e)
    then have q1: "track_matching_queue s1 = ?q" using eff by simp
    have rest: "track_calls fs s1 g1 calls = (self', g', ts)"
      using Cons.prems(2) c tr Inl by simp
    have "length (items (track_matching_queue s1)) \<le> maxlen (track_matching_queue s1)"
      using Cons.prems(1) q1 by simp
    from Cons.IH [OF this rest] show ?thesis using q1 eff by simp
  next
    case (Inr res)
    let ?x = "\<lparr>item_t = infer_t self t_arg, instances_t = res, img_t = img\<rparr>"
    have q1: "track_matching_queue s1 = deque_append ?q ?x" using eff Inr by simp
    obtain ts' where rest: "track_calls fs s1 g1 calls = (self', g', ts')"
      and res': "ts = infer_t self t_arg # ts'"
      using Cons.prems(2) c tr Inr by (auto split: prod.splits)
    have it: "items (track_matching_queue s1) = last_n (maxlen ?q) (items ?q @ [?x])"
      using q1 deque_append_items [OF Cons.prems(1)] by simp
    have ml: "maxlen (track_matching_queue s1) = maxlen ?q"
      using q1 by (simp add: deque_append_maxlen)
    have le1: "length (items (track_matching_queue s1)) \<le> maxlen (track_matching_queue s1)"
      using it ml by (simp add: length_last_n)
    have "map item_t (items (track_matching_queue s1)) =
            last_n (maxlen ?q) (map item_t (items ?q) @ [infer_t self t_arg])"
      using it by (simp add: map_last_n)
    then have "last_n (maxlen ?q) (map item_t (items (track_matching_queue s1)) @ ts') =
               last_n (maxlen ?q) (map item_t (items ?q) @ ts)"
      using res' last_n_append [of "maxlen ?q" "map item_t (items ?q) @ [infer_t self t_arg]" ts']
      by simp
    then show ?thesis using Cons.IH [OF le1 rest] ml eff res' by simp
  qed
qed

text \<open>
  Claim C5: after any run of \<open>track\<close> calls on a tracker built with its default queue,
  the queue holds at most \<open>track_window\<close> entries, and their timesteps are the
  \<open>track_window\<close> most recent timesteps of the calls that returned, oldest first: the
  oldest entry is evicted by each append past capacity. (After more than \<open>track_window\<close>
  such calls these are exactly \<open>track_window\<close> values.)
\<close>

theorem queue_holds_most_recent:
  assumes "new_Tracker w sim mf cm mn save = Inr trk0"
    and "track_calls fs trk0 g0 calls = (trk, g, ts)"
  shows "int (length (items (track_matching_queue trk))) \<le> track_window trk \<and>
         map item_t (items (track_matching_queue trk)) = last_n (nat (track_window trk)) ts"
proof -
  have w: "0 \<le> w" and q0: "track_matching_queue trk0 = \<lparr>maxlen = nat w, items = []\<rparr>"
    and w0: "track_window trk0 = w"
    using assms(1) by (auto simp: new_Tracker_def split: if_splits)
  have "length (items (track_matching_queue trk0)) \<le> maxlen (track_matching_queue trk0)"
    using q0 by simp
  from track_calls_queue [OF this assms(2)]
  have tw: "track_window trk = w"
    and m: "map item_t (items (track_matching_queue trk)) = last_n (nat w) ts"
    using q0 w0 by simp_all
  have "length (items (track_matching_queue trk)) = length (last_n (nat w) ts)"
    using m by (metis length_map)
  then have "length (items (track_matching_queue trk)) \<le> nat w"
    by (simp add: length_last_n)
  then show ?thesis using m tw w by simp
qed

lemma enumerate_filter_snd:
  "map (\<lambda>(k, (i, x)). f k x) (enumerate n (filter (\<lambda>(i, x). P x) ixs)) =
   map (\<lambda>(k, x). f k x) (enumerate n (filter P (map snd ixs)))"
proof (induction ixs arbitrary: n)
  case Nil
  then show ?case by simp
next
  case (Cons a ixs)
  then show ?case by (cases a) simp
qed

lemma spawn_all_unmatched:
  "fst (spawn_loop t mn [] (enumerate 0 U) [] spawned) =
     map (\<lambda>(k, x). x\<lparr>track := Some (spawn_track t k)\<rparr>)
       (enumerate (length spawned) (filter (\<lambda>x. mn \<le> int (n_visible_points x)) U))"
proof -
  have "map (\<lambda>(k, (i, x)). x\<lparr>track := Some (spawn_track t k)\<rparr>)
          (enumerate (length spawned)
             (filter (\<lambda>(i, x). mn \<le> int (n_visible_points x)) (enumerate 0 U))) =
        map (\<lambda>(k, x). x\<lparr>track := Some (spawn_track t k)\<rparr>)
          (enumerate (length spawned)
             (filter (\<lambda>x. mn \<le> int (n_visible_points x)) (map snd (enumerate 0 U))))"
    by (rule enumerate_filter_snd)
  then show ?thesis by (simp add: spawn_loop_closed)
qed

lemma Tracker_track_empty_queue:
  assumes "items (track_matching_queue self) = []"
  shows "fst (Tracker_track fs self U img t_arg g) =
     Inr (map (\<lambda>(k, x). x\<lparr>track := Some (spawn_track (infer_t self t_arg) k)\<rparr>)
            (enumerate (length (spawned_tracks self))
               (filter (\<lambda>x. min_new_track_points self \<le> int (n_visible_points x)) U)))"
proof -
  let ?t = "infer_t self t_arg"
  have gc: "get_candidates fs (candidate_maker self) (track_matching_queue self) ?t img =
            (Inr [], candidate_maker self)"
    using assms by (rule get_candidates_empty)
  have "fst (Tracker_track fs self U img t_arg g) =
        Inr (fst (finish_track self U [] [] img ?t))"
    using gc by (simp add: Tracker_track_def Let_def finish_track_def split: prod.split)
  then show ?thesis by (simp add: finish_track_result spawn_all_unmatched)
qed

text \<open>
  Claim C7, amended: for a tracker constructed with \<open>track_window = 0\<close>, whatever calls
  came before, a call to \<open>track\<close> finds no candidates, and every detection with at least
  \<open>min_new_track_points\<close> visible keypoints spawns a new track, numbered on from the tracks
  spawned so far, in input order; the detections with fewer are left out.
\<close>

theorem window_zero_spawns_qualifying:
  assumes "new_Tracker 0 sim mf cm mn save = Inr trk0"
    and "track_calls fs trk0 g0 calls = (trk, g, ts)"
  shows "fst (get_candidates fs (candidate_maker trk) (track_matching_queue trk) t img) = Inr [] \<and>
         fst (Tracker_track fs trk U img t_arg g) =
           Inr (map (\<lambda>(k, x). x\<lparr>track := Some (spawn_track (case t_arg of Some t' \<Rightarrow> t' | None \<Rightarrow> 0) k)\<rparr>)
                  (enumerate (length (spawned_tracks trk))
                     (filter (\<lambda>x. mn \<le> int (n_visible_points x)) U)))"
proof -
  have q0: "track_matching_queue trk0 = \<lparr>maxlen = 0, items = []\<rparr>"
    and m0: "min_new_track_points trk0 = mn"
    using assms(1) by (auto simp: new_Tracker_def)
  have "length (items (track_matching_queue trk0)) \<le> maxlen (track_matching_queue trk0)"
    using q0 by simp
  from track_calls_queue [OF this assms(2)]
  have mn: "min_new_track_points trk = mn"
    and "map item_t (items (track_matching_queue trk)) = last_n 0 ts"
    using q0 m0 by simp_all
  then have e: "items (track_matching_queue trk) = []" by (simp add: last_n_def)
  have "infer_t trk t_arg = (case t_arg of Some t' \<Rightarrow> t' | None \<Rightarrow> 0)"
    using e by (simp add: infer_t_def)
  then show ?thesis
    using Tracker_track_empty_queue [OF e, of fs U img t_arg g] mn
    by (simp add: get_candidates_empty [OF e])
qed

lemma spawned_sources:
  assumes "\<forall>(i, x) \<in> set ixs. i < length U \<and> x = U ! i"
  shows "list_all2 (\<lambda>r i. i < length U \<and> same_detection r (U ! i))
           (map (\<lambda>(k, (i, x)). x\<lparr>track := Some (spawn_track t k)\<rparr>)
              (enumerate n (filter (\<lambda>(i, x). Q i x) ixs)))
           (filter (\<lambda>i. Q i (U ! i)) (map fst ixs))"
  using assms
proof (induction ixs arbitrary: n)
  case Nil
  then show ?case by simp
next
  case (Cons a ixs)
  obtain i x where a: "a = (i, x)" by (cases a)
  have ix: "i < length U" "x = U ! i" using Cons.prems a by auto
  have rest: "\<forall>(i, x) \<in> set ixs. i < length U \<and> x = U ! i" using Cons.prems by simp
  have same: "same_detection (x\<lparr>track := Some (spawn_track t n)\<rparr>) (U ! i)"
    using ix(2) by (simp add: same_detection_def)
  show ?case
  proof (cases "Q i x")
    case True
    then show ?thesis using a ix same Cons.IH [OF rest, of "Suc n"] by simp
  next
    case False
    then show ?thesis using a ix Cons.IH [OF rest, of n] by simp
  qed
qed

lemma finish_track_sources:
  assumes "list_all2 (\<lambda>r i. i < length U \<and> same_detection r (U ! i)) tr inds"
  shows "list_all2 (\<lambda>r i. i < length U \<and> same_detection r (U ! i))
           (fst (finish_track s U tr inds img t))
           (inds @ filter (\<lambda>i. i \<notin> set inds \<and>
                               min_new_track_points s \<le> int (n_visible_points (U ! i)))
                     [0..<length U])"
proof -
  have en: "\<forall>(i, x) \<in> set (enumerate 0 U). i < length U \<and> x = U ! i"
    by (auto simp: in_set_enumerate_eq)
  have "list_all2 (\<lambda>r i. i < length U \<and> same_detection r (U ! i))
          (map (\<lambda>(k, (i, x)). x\<lparr>track := Some (spawn_track t k)\<rparr>)
             (enumerate (length (spawned_tracks s))
                (filter (\<lambda>(i, x). i \<notin> set inds \<and> min_new_track_points s \<le> int (n_visible_points x))
                   (enumerate 0 U))))
          (filter (\<lambda>i. i \<notin> set inds \<and> min_new_track_points s \<le> int (n_visible_points (U ! i)))
             (map fst (enumerate 0 U)))"
    using en by (rule spawned_sources)
  then show ?thesis
    using assms by (simp add: finish_track_result spawn_loop_closed list_all2_appendI)
qed

text \<open>
  Claim C2, amended: the list \<open>track\<close> returns holds the instances that received a track
  in this step: first the matched ones, in the order in which the matching solver
  returned their edges, then the ones for which a track was spawned, in detection-input
  order; a detection that was neither matched nor spawned is left out. Each returned
  instance is its detection with only the track and the tracking score set.
\<close>

theorem track_returns_matched_then_spawned:
  assumes "fst (Tracker_track fs self U img t_arg g) = Inr res"
  shows "list_all2 (\<lambda>r i. i < length U \<and> same_detection r (U ! i)) res
           (source_indices (solver_matches fs self U img t_arg g) (min_new_track_points self) U)"
proof -
  let ?t = "infer_t self t_arg"
  let ?R = "\<lambda>r i. i < length U \<and> same_detection r (U ! i)"
  have none: "list_all2 ?R (fst (finish_track s U [] [] img ?t))
                (source_indices [] (min_new_track_points s) U)" for s :: "('a, 'b, 'c) Tracker"
    using finish_track_sources [of U "[]" "[]" s img ?t] by (simp add: source_indices_def)
  show ?thesis
  proof (cases "0 < length U")
    case False
    then have "res = fst (finish_track self U [] [] img ?t)"
      using assms by (simp add: Tracker_track_def Let_def split: prod.splits)
    moreover have "solver_matches fs self U img t_arg g = []"
      using False by (simp add: solver_matches_def)
    ultimately show ?thesis using none [of self] by simp
  next
    case True
    obtain rc cm' where gc: "get_candidates fs (candidate_maker self) (track_matching_queue self) ?t img = (rc, cm')"
      by (cases "get_candidates fs (candidate_maker self) (track_matching_queue self) ?t img")
    let ?s = "self\<lparr>candidate_maker := cm'\<rparr>"
    show ?thesis
    proof (cases rc)
      case (Inl e)
      then show ?thesis using assms True gc by (simp add: Tracker_track_def Let_def)
    next
      case (Inr cands)
      show ?thesis
      proof (cases "0 < length cands")
        case False
        then have "res = fst (finish_track ?s U [] [] img ?t)"
          using assms True gc Inr by (simp add: Tracker_track_def Let_def split: prod.splits)
        moreover have "solver_matches fs self U img t_arg g = []"
          using False True gc Inr by (simp add: solver_matches_def)
        ultimately show ?thesis using none [of ?s] by simp
      next
        case c: True
        obtain rm gm where cmx: "compute_matches (similarity_function self) (matching_function self) U cands g = (rm, gm)"
          by (cases "compute_matches (similarity_function self) (matching_function self) U cands g")
        show ?thesis
        proof (cases rm)
          case (Inl e)
          then show ?thesis using assms True gc Inr c cmx by (simp add: Tracker_track_def Let_def)
        next
          case rmr: (Inr trip)
          obtain ms MC S where trip: "trip = (ms, MC, S)" by (cases trip)
          have sm: "solver_matches fs self U img t_arg g = ms"
            using True gc Inr c cmx rmr trip by (simp add: solver_matches_def)
          show ?thesis
          proof (cases "assign_matches U MC S ms [] []")
            case (Inl e)
            then show ?thesis using assms True gc Inr c cmx rmr trip
              by (simp add: Tracker_track_def Let_def)
          next
            case am: (Inr pr)
            obtain tr inds where pr: "pr = (tr, inds)" by (cases pr)
            have res: "res = fst (finish_track ?s U tr inds img ?t)"
              using assms True gc Inr c cmx rmr trip am pr
              by (simp add: Tracker_track_def Let_def split: prod.splits)
            have "assign_matches U MC S ms [] [] = Inr (tr, inds)" using am pr by simp
            from assign_matches_closed [OF this]
            have inds: "inds = map fst ms" and tr: "list_all2 ?R tr (map fst ms)" by auto
            show ?thesis
              unfolding res sm source_indices_def
              using finish_track_sources [of U tr inds ?s img ?t] tr inds by simp
          qed
        qed
      qed
    qed
  qed
qed

text \<open>The decimal numeral of a track's name determines its number.\<close>

lemma digit_char_inj: "a < 10 \<Longrightarrow> b < 10 \<Longrightarrow> digit_char a = digit_char b \<Longrightarrow> a = b"
proof -
  assume a: "a < 10" and b: "b < 10" and e: "digit_char a = digit_char b"
  have d: "distinct ''0123456789''" by simp
  have "a < length ''0123456789''" "b < length ''0123456789''" using a b by simp_all
  then show "a = b" using e d unfolding digit_char_def by (simp only: nth_eq_iff_index_eq)
qed

lemma str_nat_nonempty: "str_nat n \<noteq> []"
  by (subst str_nat.simps) simp

lemma str_nat_inj: "str_nat n = str_nat m \<Longrightarrow> n = m"
proof (induction n arbitrary: m rule: less_induct)
  case (less n)
  show ?case
  proof (cases "n < 10")
    case True
    then have n: "str_nat n = [digit_char n]" by (subst str_nat.simps) simp
    show ?thesis
    proof (cases "m < 10")
      case m: True
      then have "str_nat m = [digit_char m]" by (subst str_nat.simps) simp
      then show ?thesis using less.prems n True m digit_char_inj by simp
    next
      case False
      then have "str_nat m = str_nat (m div 10) @ [digit_char (m mod 10)]"
        by (subst str_nat.simps) simp
      then show ?thesis using less.prems n str_nat_nonempty [of "m div 10"] by simp
    qed
  next
    case False
    then have n: "str_nat n = str_nat (n div 10) @ [digit_char (n mod 10)]"
      by (subst str_nat.simps) simp
    show ?thesis
    proof (cases "m < 10")
      case True
      then have "str_nat m = [digit_char m]" by (subst str_nat.simps) simp
      then show ?thesis using less.prems n str_nat_nonempty [of "n div 10"] by simp
    next
      case m: False
      then have "str_nat m = str_nat (m div 10) @ [digit_char (m mod 10)]"
        by (subst str_nat.simps) simp
      then have e: "str_nat (n div 10) = str_nat (m div 10)"
        "digit_char (n mod 10) = digit_char (m mod 10)"
        using less.prems n by simp_all
      have "n div 10 < n" using False by simp
      then have "n div 10 = m div 10" using less.IH e(1) by blast
      moreover have "n mod 10 = m mod 10" using e(2) digit_char_inj [of "n mod 10" "m mod 10"] by simp
      ultimately show ?thesis by (metis div_mult_mod_eq)
    qed
  qed
qed

lemma spawn_track_inj: "spawn_track t n = spawn_track t' n' \<Longrightarrow> n = n'"
  by (simp add: spawn_track_def str_nat_inj)

text \<open>
  The registry of spawned tracks is numbered when the track at position \<open>k\<close> has the name
  \<open>track_k\<close>. The constructor leaves it empty and every call keeps it numbered, so the
  tracks a tracker spawns are pairwise different.
\<close>

definition numbered :: "Track list \<Rightarrow> bool" where
  "numbered spawned \<longleftrightarrow> (\<forall>k < length spawned. name (spawned ! k) = ''track_'' @ str_nat k)"

lemma numbered_distinct: "numbered spawned \<Longrightarrow> distinct spawned"
proof -
  assume n: "numbered spawned"
  have "i = j" if "i < length spawned" "j < length spawned" "spawned ! i = spawned ! j" for i j
  proof -
    have "''track_'' @ str_nat i = ''track_'' @ str_nat j"
      using n that unfolding numbered_def by metis
    then show ?thesis using str_nat_inj by simp
  qed
  then show ?thesis by (auto simp: distinct_conv_nth)
qed

lemma spawn_loop_numbered:
  "numbered spawned \<Longrightarrow> numbered (snd (spawn_loop t mn inds es tracked spawned))"
proof (induction es arbitrary: tracked spawned)
  case Nil
  then show ?case by simp
next
  case (Cons e es)
  obtain i inst where e: "e = (i, inst)" by (cases e)
  have "numbered (spawned @ [spawn_track t (length spawned)])"
    using Cons.prems by (auto simp: numbered_def nth_append spawn_track_def less_Suc_eq)
  then show ?case using Cons e by (simp add: Let_def)
qed

lemma finish_track_numbered:
  "numbered (spawned_tracks self) \<Longrightarrow>
   numbered (spawned_tracks (snd (finish_track self us tracked inds img t)))"
  using spawn_loop_numbered [of "spawned_tracks self" t "min_new_track_points self" inds
      "enumerate 0 us" tracked]
  by (simp add: finish_track_def Let_def case_prod_beta)

lemma Tracker_track_numbered:
  "numbered (spawned_tracks self) \<Longrightarrow>
   numbered (spawned_tracks (fst (snd (Tracker_track fs self us img t_arg g))))"
proof -
  assume n: "numbered (spawned_tracks self)"
  have f: "numbered (spawned_tracks (snd (finish_track (self\<lparr>candidate_maker := c\<rparr>) u tracked inds img t)))"
    for c u tracked inds t
    using n by (intro finish_track_numbered) simp
  have f0: "numbered (spawned_tracks (snd (finish_track self u tracked inds img t)))"
    for u tracked inds t
    using n by (rule finish_track_numbered)
  show ?thesis
    by (simp add: Tracker_track_def Let_def case_prod_beta n f f0 split: sum.split)
qed

lemma track_calls_numbered:
  "numbered (spawned_tracks self) \<Longrightarrow>
   numbered (spawned_tracks (fst (track_calls fs self g calls)))"
proof (induction calls arbitrary: self g)
  case Nil
  then show ?case by simp
next
  case (Cons c calls)
  obtain us img t_arg where c: "c = (us, img, t_arg)" by (cases c)
  obtain r self' g' where r: "Tracker_track fs self us img t_arg g = (r, self', g')"
    by (cases "Tracker_track fs self us img t_arg g")
  have "numbered (spawned_tracks self')"
    using Tracker_track_numbered [OF Cons.prems, of fs us img t_arg g] r by simp
  then have "numbered (spawned_tracks (fst (track_calls fs self' g' calls)))"
    by (rule Cons.IH)
  then show ?case using c r by (cases r) (simp_all add: case_prod_beta)
qed

lemma spawned_tracks_distinct:
  assumes "new_Tracker w sim mf cm mn sv = Inr self"
  shows "distinct (spawned_tracks (fst (track_calls fs self g calls)))"
proof -
  have "spawned_tracks self = []" using assms by (auto simp: new_Tracker_def split: if_splits)
  then have "numbered (spawned_tracks self)" by (simp add: numbered_def)
  then show ?thesis by (intro numbered_distinct track_calls_numbered)
qed

section \<open>Examples\<close>

text \<open>
  The trackers of the examples track points on a line: the keypoints of an instance are
  one integer, the similarity is the negative distance, the matching is greedy and the
  candidates are the stored instances. The flow projection is never called by the simple
  candidate maker; the one given here raises.
\<close>

definition no_flow :: "(int, unit) flow_shift" where
  "no_flow ref_instances ref_img new_img min_shifted_points scale window_size max_levels =
     Inl AttributeError"

definition closeness :: "(int, unit) similarity" where
  "closeness u c g =
     (case c of
        Stored r \<Rightarrow> (Fin (- \<bar>real_of_int (points_array u - points_array r)\<bar>), g)
      | Shifted s \<Rightarrow> (Fin (- \<bar>real_of_int (points_array u - shifted_points_array s)\<bar>), g))"

definition det :: "int \<Rightarrow> nat \<Rightarrow> int Instance" where
  "det x n = \<lparr>points_array = x, n_visible_points = n, track = None, tracking_score = Fin 0\<rparr>"

definition example_tracker :: "int \<Rightarrow> int \<Rightarrow> (int, unit, unit) Tracker" where
  "example_tracker w mn =
     \<lparr>track_window = w, similarity_function = closeness,
      matching_function = greedy_matching_function,
      candidate_maker = SimpleCandidateMaker 0, min_new_track_points = mn,
      track_matching_queue = \<lparr>maxlen = nat w, items = []\<rparr>, spawned_tracks = [],
      save_tracked_instances = False, tracked_instances = Map.empty\<rparr>"

lemma new_example_tracker:
  "0 \<le> w \<Longrightarrow>
   new_Tracker w closeness greedy_matching_function (SimpleCandidateMaker 0) mn False =
     Inr (example_tracker w mn)"
  by (simp add: new_Tracker_def example_tracker_def)

definition after_first_frame :: "(int, unit, unit) Tracker" where
  "after_first_frame = fst (track_calls no_flow (example_tracker 5 0) () [([det 10 2], None, None)])"

text \<open>
  Claim C2, as stated (the returned list is in detection-input order), fails. After a
  first frame with one detection at \<open>10\<close>, which spawns \<open>track_0\<close>, the frame with the
  detections at \<open>50\<close> and \<open>11\<close>, in this order, returns the second detection first: it is
  matched to \<open>track_0\<close>, and the first detection, unmatched, is appended by the spawning
  loop afterwards.
\<close>

theorem track_result_not_in_input_order:
  "fst (Tracker_track no_flow after_first_frame [det 50 2, det 11 2] None None ()) =
     Inr [(det 11 2)\<lparr>track := Some (spawn_track 0 0), tracking_score := Fin (- 1)\<rparr>,
          (det 50 2)\<lparr>track := Some (spawn_track 1 1)\<rparr>]"
  by code_simp

definition three_frames :: "(int Instance list \<times> unit option \<times> int option) list" where
  "three_frames = [([det 10 2], None, None), ([det 11 2], None, None), ([det 12 2], None, None)]"

text \<open>
  Claim C7, as stated (with \<open>track_window = 0\<close> every detection spawns a new track),
  fails: with \<open>min_new_track_points = 1\<close> a detection without visible keypoints is
  skipped by the spawning loop; nothing is returned and no track is spawned.
\<close>

theorem window_zero_detection_not_spawned:
  "new_Tracker 0 closeness greedy_matching_function (SimpleCandidateMaker 0) 1 False =
     Inr (example_tracker 0 1) \<and>
   fst (Tracker_track no_flow (example_tracker 0 1) [det 7 0] None None ()) = Inr [] \<and>
   spawned_tracks (fst (snd (Tracker_track no_flow (example_tracker 0 1) [det 7 0] None None ()))) = []"
proof -
  have "fst (Tracker_track no_flow (example_tracker 0 1) [det 7 0] None None ()) = Inr []"
    by code_simp
  moreover have "spawned_tracks (fst (snd (Tracker_track no_flow (example_tracker 0 1) [det 7 0] None None ()))) = []"
    by code_simp
  ultimately show ?thesis by (simp add: new_example_tracker)
qed

text \<open>
  A similarity that is NaN becomes the cost \<open>inf\<close>, and the greedy solver still returns the
  edge: the detection is assigned to the track, with NaN as its tracking score.
\<close>

definition undefined_similarity :: "(int, unit) similarity" where
  "undefined_similarity u c g = (NaN, g)"

lemma track_matches_nan_similarity:
  "fst (Tracker_track no_flow (after_first_frame\<lparr>similarity_function := undefined_similarity\<rparr>)
          [det 11 2] None None ()) =
     Inr [(det 11 2)\<lparr>track := Some (spawn_track 0 0), tracking_score := NaN\<rparr>]"
  by code_simp

theorem track_returns_matched_then_spawned_witness:
  "fst (Tracker_track no_flow after_first_frame [det 50 2, det 11 2] None None ()) =
     Inr [(det 11 2)\<lparr>track := Some (spawn_track 0 0), tracking_score := Fin (- 1)\<rparr>,
          (det 50 2)\<lparr>track := Some (spawn_track 1 1)\<rparr>] \<and>
   source_indices (solver_matches no_flow after_first_frame [det 50 2, det 11 2] None None ())
     (min_new_track_points after_first_frame) [det 50 2, det 11 2] = [1, 0] \<and>
   list_all2 (\<lambda>r i. i < length [det 50 2, det 11 2] \<and> same_detection r ([det 50 2, det 11 2] ! i))
     [(det 11 2)\<lparr>track := Some (spawn_track 0 0), tracking_score := Fin (- 1)\<rparr>,
      (det 50 2)\<lparr>track := Some (spawn_track 1 1)\<rparr>]
     (source_indices (solver_matches no_flow after_first_frame [det 50 2, det 11 2] None None ())
        (min_new_track_points after_first_frame) [det 50 2, det 11 2])"
proof -
  have r: "fst (Tracker_track no_flow after_first_frame [det 50 2, det 11 2] None None ()) =
     Inr [(det 11 2)\<lparr>track := Some (spawn_track 0 0), tracking_score := Fin (- 1)\<rparr>,
          (det 50 2)\<lparr>track := Some (spawn_track 1 1)\<rparr>]"
    by code_simp
  have s: "source_indices (solver_matches no_flow after_first_frame [det 50 2, det 11 2] None None ())
     (min_new_track_points after_first_frame) [det 50 2, det 11 2] = [1, 0]"
    by code_simp
  show ?thesis
    using r s track_returns_matched_then_spawned [OF r] by simp
qed

theorem queue_holds_most_recent_witness:
  "new_Tracker 2 closeness greedy_matching_function (SimpleCandidateMaker 0) 0 False =
     Inr (example_tracker 2 0) \<and>
   snd (snd (track_calls no_flow (example_tracker 2 0) () three_frames)) = [0, 1, 2] \<and>
   int (length (items (track_matching_queue
      (fst (track_calls no_flow (example_tracker 2 0) () three_frames)))))
     \<le> track_window (fst (track_calls no_flow (example_tracker 2 0) () three_frames)) \<and>
   map item_t (items (track_matching_queue
      (fst (track_calls no_flow (example_tracker 2 0) () three_frames)))) =
     last_n (nat (track_window (fst (track_calls no_flow (example_tracker 2 0) () three_frames))))
       (snd (snd (track_calls no_flow (example_tracker 2 0) () three_frames))) \<and>
   map item_t (items (track_matching_queue
      (fst (track_calls no_flow (example_tracker 2 0) () three_frames)))) = [1, 2]"
proof -
  let ?run = "track_calls no_flow (example_tracker 2 0) () three_frames"
  have n: "new_Tracker 2 closeness greedy_matching_function (SimpleCandidateMaker 0) 0 False =
     Inr (example_tracker 2 0)"
    by (simp add: new_example_tracker)
  have c: "?run = (fst ?run, fst (snd ?run), snd (snd ?run))" by (simp only: prod.collapse)
  have t: "snd (snd ?run) = [0, 1, 2]" by code_simp
  have q: "map item_t (items (track_matching_queue (fst ?run))) = [1, 2]" by code_simp
  show ?thesis
    using n t q queue_holds_most_recent [OF n c] by simp
qed

definition one_frame :: "(int Instance list \<times> unit option \<times> int option) list" where
  "one_frame = [([det 10 2], None, None)]"

theorem window_zero_spawns_qualifying_witness:
  "new_Tracker 0 closeness greedy_matching_function (SimpleCandidateMaker 0) 1 False =
     Inr (example_tracker 0 1) \<and>
   fst (get_candidates no_flow
      (candidate_maker (fst (track_calls no_flow (example_tracker 0 1) () one_frame)))
      (track_matching_queue (fst (track_calls no_flow (example_tracker 0 1) () one_frame)))
      0 None) = Inr [] \<and>
   fst (Tracker_track no_flow (fst (track_calls no_flow (example_tracker 0 1) () one_frame))
      [det 5 0, det 6 3] None None (fst (snd (track_calls no_flow (example_tracker 0 1) () one_frame)))) =
     Inr [(det 6 3)\<lparr>track := Some (spawn_track 0 1)\<rparr>]"
proof -
  let ?run = "track_calls no_flow (example_tracker 0 1) () one_frame"
  have n: "new_Tracker 0 closeness greedy_matching_function (SimpleCandidateMaker 0) 1 False =
     Inr (example_tracker 0 1)"
    by (simp add: new_example_tracker)
  have c: "?run = (fst ?run, fst (snd ?run), snd (snd ?run))" by (simp only: prod.collapse)
  have l: "length (spawned_tracks (fst ?run)) = 1" by code_simp
  show ?thesis
    using n window_zero_spawns_qualifying [OF n c, of 0 None "[det 5 0, det 6 3]" None]
    by (simp add: l det_def)
qed

end
